theory Spec2Isabelle
  imports Complex_Main
begin

section \<open>Python values and failures\<close>

text \<open>
  The two scripts are Python. Their \<open>int\<close> is unbounded and is modelled by \<open>int\<close>;
  their \<open>float\<close> is modelled by \<open>pyfloat\<close> below; text is \<open>string\<close>. Every
  exception the scripts can raise by themselves is a value of \<open>error\<close>, and a function
  that can raise returns \<open>error + 'a\<close> with \<open>Inl\<close> for the exception.
\<close>

datatype error =
    UsageError          \<comment> \<open>argparse rejects the command line and exits\<close>
  | KeyError            \<comment> \<open>dictionary lookup of a missing key\<close>
  | ZeroDivisionError   \<comment> \<open>\<open>//\<close> or \<open>%\<close> by zero\<close>
  | ValueError          \<comment> \<open>\<open>time.sleep\<close> of a negative length or of NaN, \<open>randint\<close> on an empty range\<close>
  | OverflowError       \<comment> \<open>\<open>time.sleep\<close> of a length that does not fit the clock\<close>

section \<open>Python floats\<close>

text \<open>
  A float is a finite value, one of the two infinities, or NaN; \<open>argparse\<close> with
  \<open>type=float\<close> accepts all of them. Arithmetic on finite values is the exact
  arithmetic of the reals, except that a result beyond the largest double overflows to
  an infinity; rounding to the nearest double is not modelled. Infinities and NaN
  follow IEEE 754, and every comparison with NaN is false.
\<close>

datatype pyfloat = Fin real | PInf | NInf | NaN

definition FLOAT_MAX :: real where
  \<comment> \<open>the largest finite double\<close>
  "FLOAT_MAX = 2 ^ 1024 - 2 ^ 971"

definition fl :: "real \<Rightarrow> pyfloat" where
  "fl x = (if FLOAT_MAX < x then PInf else if x < - FLOAT_MAX then NInf else Fin x)"

fun fneg :: "pyfloat \<Rightarrow> pyfloat" where
  "fneg (Fin x) = Fin (- x)"
| "fneg PInf = NInf"
| "fneg NInf = PInf"
| "fneg NaN = NaN"

fun fadd :: "pyfloat \<Rightarrow> pyfloat \<Rightarrow> pyfloat" where
  "fadd (Fin x) (Fin y) = fl (x + y)"
| "fadd NaN b = NaN"
| "fadd a NaN = NaN"
| "fadd PInf NInf = NaN"
| "fadd NInf PInf = NaN"
| "fadd PInf b = PInf"
| "fadd a PInf = PInf"
| "fadd NInf b = NInf"
| "fadd a NInf = NInf"


definition fsub :: "pyfloat \<Rightarrow> pyfloat \<Rightarrow> pyfloat" where
  "fsub a b = fadd a (fneg b)"

fun fmul :: "pyfloat \<Rightarrow> pyfloat \<Rightarrow> pyfloat" where
  "fmul (Fin x) (Fin y) = fl (x * y)"
| "fmul NaN b = NaN"
| "fmul a NaN = NaN"
| "fmul PInf (Fin y) = (if y = 0 then NaN else if 0 < y then PInf else NInf)"
| "fmul NInf (Fin y) = (if y = 0 then NaN else if 0 < y then NInf else PInf)"
| "fmul (Fin x) PInf = (if x = 0 then NaN else if 0 < x then PInf else NInf)"
| "fmul (Fin x) NInf = (if x = 0 then NaN else if 0 < x then NInf else PInf)"
| "fmul PInf PInf = PInf"
| "fmul PInf NInf = NInf"
| "fmul NInf PInf = NInf"
| "fmul NInf NInf = PInf"

instantiation pyfloat :: ord
begin

fun less_eq_pyfloat :: "pyfloat \<Rightarrow> pyfloat \<Rightarrow> bool" where
  "less_eq_pyfloat (Fin x) (Fin y) = (x \<le> y)"
| "less_eq_pyfloat NaN b = False"
| "less_eq_pyfloat a NaN = False"
| "less_eq_pyfloat NInf b = True"
| "less_eq_pyfloat a PInf = True"
| "less_eq_pyfloat a NInf = False"
| "less_eq_pyfloat PInf b = False"

fun less_pyfloat :: "pyfloat \<Rightarrow> pyfloat \<Rightarrow> bool" where
  "less_pyfloat (Fin x) (Fin y) = (x < y)"
| "less_pyfloat NaN b = False"
| "less_pyfloat a NaN = False"
| "less_pyfloat PInf b = False"
| "less_pyfloat a NInf = False"
| "less_pyfloat NInf b = True"
| "less_pyfloat a PInf = True"

instance ..

end

section \<open>generate_test_logs.py: rate configuration\<close>

record rate_config =
  min_interval :: pyfloat
  max_interval :: pyfloat

text \<open>The \<open>argparse\<close> namespace of \<open>main\<close>; the two interval options have no default,
  so they are \<open>None\<close> unless given.\<close>

record namespace =
  a_files :: int
  a_duration :: int
  a_dir :: string
  a_rate :: string
  a_min_interval :: "pyfloat option"
  a_max_interval :: "pyfloat option"
  a_prefix :: string

definition rate_choices :: "string list" where
  "rate_choices = [''slow'', ''medium'', ''fast'', ''burst'']"

text \<open>\<open>parser.parse_args()\<close>, as far as it validates: \<open>--rate\<close> has \<open>choices\<close>.\<close>

definition parse_args :: "namespace \<Rightarrow> error + namespace" where
  "parse_args a = (if a_rate a \<in> set rate_choices then Inr a else Inl UsageError)"

definition rate_presets :: "string \<rightharpoonup> rate_config" where
  "rate_presets =
     [''slow'' \<mapsto> \<lparr>min_interval = Fin 2.0, max_interval = Fin 5.0\<rparr>,
      ''medium'' \<mapsto> \<lparr>min_interval = Fin 0.5, max_interval = Fin 2.0\<rparr>,
      ''fast'' \<mapsto> \<lparr>min_interval = Fin 0.1, max_interval = Fin 0.5\<rparr>,
      ''burst'' \<mapsto> \<lparr>min_interval = Fin 0.01, max_interval = Fin 0.1\<rparr>]"

text \<open>Lines 230 to 236 of \<open>main\<close>: "Determine rate configuration".\<close>

definition determine_rate_config :: "namespace \<Rightarrow> error + rate_config" where
  "determine_rate_config a =
     (if a_min_interval a \<noteq> None \<and> a_max_interval a \<noteq> None
      then Inr \<lparr>min_interval = the (a_min_interval a), max_interval = the (a_max_interval a)\<rparr>
      else (case rate_presets (a_rate a) of
              None \<Rightarrow> Inl KeyError
            | Some c \<Rightarrow> Inr c))"

definition resolve_rate :: "namespace \<Rightarrow> error + rate_config" where
  "resolve_rate a =
     (case parse_args a of Inl e \<Rightarrow> Inl e | Inr a' \<Rightarrow> determine_rate_config a')"

text \<open>The invariant the data model asks of a rate policy.\<close>

definition rate_ok :: "rate_config \<Rightarrow> bool" where
  "rate_ok c \<longleftrightarrow> Fin 0 \<le> min_interval c \<and> min_interval c \<le> max_interval c"

section \<open>generate_test_logs.py: the random source\<close>

text \<open>
  The scripts draw from Python's global \<open>random\<close> module. A draw is an input of the
  model: \<open>random.random()\<close> is a real \<open>u\<close> (in \<open>[0, 1)\<close> for the library), and an
  integer draw below \<open>n\<close> is \<open>r mod n\<close> for an arbitrary natural \<open>r\<close>, which
  reaches every value below \<open>n\<close> and nothing else.
\<close>

definition choice :: "'a list \<Rightarrow> nat \<Rightarrow> 'a" where
  \<comment> \<open>\<open>random.choice(seq)\<close>, for the non-empty catalogs of the script\<close>
  "choice seq r = seq ! (r mod length seq)"

definition randint :: "int \<Rightarrow> int \<Rightarrow> nat \<Rightarrow> int" where
  \<comment> \<open>\<open>random.randint(a, b)\<close>, called with constants \<open>a \<le> b\<close> only\<close>
  "randint a b r = a + int (r mod nat (b - a + 1))"

definition uniform :: "pyfloat \<Rightarrow> pyfloat \<Rightarrow> real \<Rightarrow> pyfloat" where
  \<comment> \<open>\<open>random.uniform(a, b)\<close> is \<open>a + (b - a) * random()\<close>\<close>
  "uniform a b u = fadd a (fmul (fsub b a) (Fin u))"

fun accumulate :: "real \<Rightarrow> real list \<Rightarrow> real list" where
  "accumulate acc [] = []"
| "accumulate acc (w # ws) = (acc + w) # accumulate (acc + w) ws"

definition bisect :: "real list \<Rightarrow> real \<Rightarrow> nat \<Rightarrow> nat" where
  \<comment> \<open>\<open>bisect_right(a, x, 0, hi)\<close> on a sorted list: the entries up to \<open>hi\<close> that are \<open>\<le> x\<close>\<close>
  "bisect a x hi = length (filter (\<lambda>c. c \<le> x) (take hi a))"

definition choices :: "'a list \<Rightarrow> real list \<Rightarrow> real \<Rightarrow> 'a" where
  \<comment> \<open>\<open>random.choices(population, weights=weights)[0]\<close>\<close>
  "choices population weights u =
     (let cum_weights = accumulate 0 weights;
          total = last cum_weights;
          hi = length population - 1
      in population ! bisect cum_weights (u * total) hi)"

section \<open>generate_test_logs.py: the message synthesizer\<close>

definition LOG_LEVELS :: "string list" where
  "LOG_LEVELS = [''DEBUG'', ''INFO'', ''WARN'', ''ERROR'', ''FATAL'']"

definition LOG_COMPONENTS :: "string list" where
  "LOG_COMPONENTS =
     [''Database'', ''WebServer'', ''APIHandler'', ''AuthService'',
      ''CacheManager'', ''MessageQueue'', ''FileProcessor'', ''Scheduler'']"

text \<open>A template is its literal text with named holes.\<close>

datatype seg = Lit string | Hole string

definition MESSAGE_TEMPLATES :: "seg list list" where
  "MESSAGE_TEMPLATES =
     [[Lit ''Processing '', Hole ''noun'', Lit '' for user '', Hole ''user_id''],
      [Lit ''Database query took '', Hole ''latency'', Lit ''ms''],
      [Lit ''API endpoint /'', Hole ''endpoint'', Lit '' returned status '', Hole ''status''],
      [Lit ''Cache hit ratio: '', Hole ''percentage'', Lit ''%''],
      [Lit ''Connection pool size: '', Hole ''count'', Lit ''/'', Hole ''max_count''],
      [Hole ''action'', Lit '' '', Hole ''noun'', Lit '' completed successfully''],
      [Lit ''Failed to '', Hole ''action'', Lit '' '', Hole ''noun'', Lit '': '', Hole ''error''],
      [Lit ''Memory usage: '', Hole ''percentage'', Lit ''% ('', Hole ''size'', Lit ''MB / '',
       Hole ''max_size'', Lit ''MB)''],
      [Lit ''Received '', Hole ''count'', Lit '' messages from queue''],
      [Lit ''Background job '', Lit [CHR 0x27], Hole ''job_name'', Lit [CHR 0x27], Lit '' '',
       Hole ''status''],
      [Lit ''User '', Hole ''user_id'', Lit '' authenticated via '', Hole ''method''],
      [Lit ''File '', Hole ''filename'', Lit '' processed in '', Hole ''latency'', Lit ''ms''],
      [Lit ''Request timeout after '', Hole ''timeout'', Lit ''s''],
      [Lit ''Retry attempt '', Hole ''attempt'', Lit ''/'', Hole ''max_attempts''],
      [Hole ''count'', Lit '' active sessions, '', Hole ''idle'', Lit '' idle'']]"

definition NOUNS :: "string list" where
  "NOUNS = [''record'', ''document'', ''entity'', ''object'', ''resource'', ''item'', ''entry'']"

definition ACTIONS :: "string list" where
  "ACTIONS = [''create'', ''update'', ''delete'', ''fetch'', ''process'', ''validate'', ''parse'']"

definition ERRORS :: "string list" where
  "ERRORS = [''timeout'', ''connection refused'', ''invalid format'', ''not found'',
             ''permission denied'']"

definition METHODS :: "string list" where
  "METHODS = [''OAuth2'', ''SAML'', ''JWT'', ''API Key'', ''Basic Auth'']"

definition JOB_NAMES :: "string list" where
  "JOB_NAMES = [''data_sync'', ''report_generation'', ''cleanup'', ''backup'', ''indexing'']"

definition ENDPOINTS :: "string list" where
  "ENDPOINTS = [''users'', ''orders'', ''products'', ''auth'', ''analytics'', ''search'']"

definition FILENAMES :: "string list" where
  "FILENAMES = [''data.csv'', ''report.pdf'', ''config.json'', ''backup.tar.gz'', ''log.txt'']"

text \<open>Decimal rendering of Python integers, as \<open>str\<close> and a plain \<open>{}\<close> field give.\<close>

fun show_nat :: "nat \<Rightarrow> string" where
  "show_nat n =
     (if n < 10 then [''0123456789'' ! n]
      else show_nat (n div 10) @ [''0123456789'' ! (n mod 10)])"

definition str_int :: "int \<Rightarrow> string" where
  "str_int i = (if i < 0 then ''-'' @ show_nat (nat (- i)) else show_nat (nat i))"

definition pad :: "nat \<Rightarrow> string \<Rightarrow> string" where
  \<comment> \<open>the format spec \<open>:n\<close> on a string: left-aligned, filled with spaces to width \<open>n\<close>\<close>
  "pad n s = s @ replicate (n - length s) CHR '' ''"

text \<open>\<open>str.format\<close> with keyword arguments: a hole without an argument raises.\<close>

fun format :: "seg list \<Rightarrow> (string \<rightharpoonup> string) \<Rightarrow> error + string" where
  "format [] kw = Inr []"
| "format (Lit s # t) kw =
     (case format t kw of Inl e \<Rightarrow> Inl e | Inr rest \<Rightarrow> Inr (s @ rest))"
| "format (Hole k # t) kw =
     (case kw k of
        None \<Rightarrow> Inl KeyError
      | Some v \<Rightarrow> (case format t kw of Inl e \<Rightarrow> Inl e | Inr rest \<Rightarrow> Inr (v @ rest)))"

text \<open>What one call of \<open>generate_log_line\<close> reads from outside: the clock, already
  formatted by \<open>strftime("%Y-%m-%d %H:%M:%S.%f")\<close>, and its random draws in order.\<close>

record line_rand =
  r_now :: string
  r_level0 :: nat
  r_component :: nat
  r_level :: real
  r_template :: nat
  r_noun :: nat
  r_action :: nat
  r_user_id :: nat
  r_latency :: nat
  r_status :: nat
  r_percentage :: nat
  r_count :: nat
  r_max_count :: nat
  r_error :: nat
  r_method :: nat
  r_job_name :: nat
  r_endpoint :: nat
  r_filename :: nat
  r_timeout :: nat
  r_attempt :: nat
  r_idle :: nat
  r_size :: nat
  r_max_size :: nat

definition kwargs :: "line_rand \<Rightarrow> (string \<times> string) list" where
  "kwargs d =
     [(''noun'', choice NOUNS (r_noun d)),
      (''action'', choice ACTIONS (r_action d)),
      (''user_id'', ''user_'' @ str_int (randint 1000 9999 (r_user_id d))),
      (''latency'', str_int (randint 10 2000 (r_latency d))),
      (''status'', str_int (choice [200, 201, 400, 404, 500, 503] (r_status d))),
      (''percentage'', str_int (randint 10 99 (r_percentage d))),
      (''count'', str_int (randint 1 100 (r_count d))),
      (''max_count'', str_int (randint 100 500 (r_max_count d))),
      (''error'', choice ERRORS (r_error d)),
      (''method'', choice METHODS (r_method d)),
      (''job_name'', choice JOB_NAMES (r_job_name d)),
      (''endpoint'', choice ENDPOINTS (r_endpoint d)),
      (''filename'', choice FILENAMES (r_filename d)),
      (''timeout'', str_int (randint 5 60 (r_timeout d))),
      (''attempt'', str_int (randint 1 3 (r_attempt d))),
      (''max_attempts'', str_int 3),
      (''idle'', str_int (randint 0 50 (r_idle d))),
      (''size'', str_int (randint 100 8000 (r_size d))),
      (''max_size'', str_int (randint 8000 16000 (r_max_size d)))]"

definition render_line :: "string \<Rightarrow> string \<Rightarrow> string \<Rightarrow> string \<Rightarrow> string" where
  \<comment> \<open>the f-string of the \<open>return\<close>\<close>
  "render_line timestamp level component message =
     timestamp @ '' ['' @ pad 5 level @ ''] '' @ pad 15 component @ '' - '' @ message @ [CHR 0x0A]"

definition generate_log_line :: "line_rand \<Rightarrow> error + string" where
  "generate_log_line d =
     (let timestamp = take (length (r_now d) - 3) (r_now d);
          level = choice LOG_LEVELS (r_level0 d);
          component = choice LOG_COMPONENTS (r_component d);
          weights = [0.3, 0.5, 0.12, 0.06, 0.02];
          level = choices LOG_LEVELS weights (r_level d);
          template = choice MESSAGE_TEMPLATES (r_template d)
      in case format template (map_of (kwargs d)) of
           Inl e \<Rightarrow> Inl e
         | Inr message \<Rightarrow> Inr (render_line timestamp level component message))"

section \<open>generate_test_logs.py: the writer of one file\<close>

text \<open>
  The file system is a map from paths to file contents. Opening, writing and flushing
  are taken to succeed; what the script itself decides is modelled in full. What a
  writer does that can be observed from outside is recorded in \<open>events\<close>, in order.
\<close>

type_synonym filesystem = "string \<rightharpoonup> string"

datatype event = Wrote string | Flushed | Printed string | Slept pyfloat

record log_generator =
  filepath :: string
  rate_config :: rate_config
  file_index :: int
  running :: bool
  thread :: bool          \<comment> \<open>\<open>False\<close> is \<open>None\<close>, \<open>True\<close> a started thread\<close>
  lines_written :: int

definition LogGenerator :: "string \<Rightarrow> rate_config \<Rightarrow> int \<Rightarrow> log_generator" where
  \<comment> \<open>\<open>__init__\<close>\<close>
  "LogGenerator path cfg idx =
     \<lparr>filepath = path, rate_config = cfg, file_index = idx, running = False, thread = False,
      lines_written = 0\<rparr>"

text \<open>The state a writer thread works on: its generator object, the files, the buffer
  of its open file \<open>f\<close>, and what it has done so far.\<close>

record proc =
  self :: log_generator
  files :: filesystem
  f_buffer :: string
  events :: "event list"

definition content :: "filesystem \<Rightarrow> string \<Rightarrow> string" where
  "content fs path = (case fs path of None \<Rightarrow> [] | Some c \<Rightarrow> c)"

definition open_append :: "proc \<Rightarrow> proc" where
  \<comment> \<open>\<open>open(self.filepath, 'a')\<close>: creates a missing file, keeps an existing one\<close>
  "open_append p =
     p\<lparr>files := (files p)(filepath (self p) \<mapsto> content (files p) (filepath (self p))),
       f_buffer := []\<rparr>"

definition f_write :: "string \<Rightarrow> proc \<Rightarrow> proc" where
  "f_write line p = p\<lparr>f_buffer := f_buffer p @ line, events := events p @ [Wrote line]\<rparr>"

definition f_flush :: "proc \<Rightarrow> proc" where
  "f_flush p =
     p\<lparr>files := (files p)(filepath (self p) \<mapsto> content (files p) (filepath (self p)) @ f_buffer p),
       f_buffer := [],
       events := events p @ [Flushed]\<rparr>"

definition f_close :: "proc \<Rightarrow> proc" where
  \<comment> \<open>leaving the \<open>with\<close> block writes out what is still buffered\<close>
  "f_close p =
     p\<lparr>files := (files p)(filepath (self p) \<mapsto> content (files p) (filepath (self p)) @ f_buffer p),
       f_buffer := []\<rparr>"

definition count_line :: "proc \<Rightarrow> proc" where
  \<comment> \<open>\<open>self.lines_written += 1\<close>\<close>
  "count_line p = p\<lparr>self := (self p)\<lparr>lines_written := lines_written (self p) + 1\<rparr>\<rparr>"

definition print :: "string \<Rightarrow> proc \<Rightarrow> proc" where
  "print s p = p\<lparr>events := events p @ [Printed s]\<rparr>"

text \<open>
  \<open>time.sleep(secs)\<close> first converts the length to nanoseconds in a signed 64-bit
  integer: NaN raises \<open>ValueError\<close> and a length that does not fit raises
  \<open>OverflowError\<close>. Then a negative length raises \<open>ValueError\<close>. Otherwise it
  sleeps (CPython 3.11 on a 64-bit platform).
\<close>

definition SLEEP_LIMIT :: real where
  \<comment> \<open>the first length, in seconds, whose nanoseconds no longer fit\<close>
  "SLEEP_LIMIT = 2 ^ 63 / 10 ^ 9"

definition sleep_error :: "pyfloat \<Rightarrow> error option" where
  "sleep_error secs =
     (case secs of
        NaN \<Rightarrow> Some ValueError
      | PInf \<Rightarrow> Some OverflowError
      | NInf \<Rightarrow> Some OverflowError
      | Fin x \<Rightarrow>
          if x < - SLEEP_LIMIT \<or> SLEEP_LIMIT \<le> x then Some OverflowError
          else if x < 0 then Some ValueError
          else None)"

definition time_sleep :: "pyfloat \<Rightarrow> proc \<Rightarrow> error + proc" where
  "time_sleep secs p =
     (case sleep_error secs of
        Some e \<Rightarrow> Inl e
      | None \<Rightarrow> Inr (p\<lparr>events := events p @ [Slept secs]\<rparr>))"

text \<open>The three statements that put one line into the file: \<open>generate_log_line\<close>,
  \<open>f.write\<close>, \<open>f.flush\<close>, and the counter.\<close>

definition write_one :: "line_rand \<Rightarrow> proc \<Rightarrow> error + proc" where
  "write_one d p =
     (case generate_log_line d of
        Inl e \<Rightarrow> Inl e
      | Inr line \<Rightarrow> Inr (count_line (f_flush (f_write line p))))"

fun write_burst :: "line_rand list \<Rightarrow> proc \<Rightarrow> error + proc" where
  \<comment> \<open>the \<open>for _ in range(burst_size)\<close> loop, one element per round\<close>
  "write_burst [] p = Inr p"
| "write_burst (d # ds) p =
     (case write_one d p of Inl e \<Rightarrow> Inl e | Inr p' \<Rightarrow> write_burst ds p')"

text \<open>The draws of one round of the \<open>while\<close> loop; \<open>r_lines j\<close> are the draws of the
  \<open>j\<close>-th call of \<open>generate_log_line\<close> in that round.\<close>

record iter_rand =
  r_interval :: real
  r_burst :: real
  r_burst_size :: nat
  r_lines :: "nat \<Rightarrow> line_rand"

definition burst_message :: "int \<Rightarrow> int \<Rightarrow> string" where
  "burst_message idx burst_size =
     ''[File '' @ str_int idx @ ''] Burst: '' @ str_int burst_size @ '' lines''"

definition loop_body :: "iter_rand \<Rightarrow> proc \<Rightarrow> error + proc" where
  \<comment> \<open>one round of \<open>while self.running\<close> in \<open>_generate_loop\<close>, lines 131 to 153\<close>
  "loop_body r p =
     (let interval = uniform (min_interval (rate_config (self p)))
                             (max_interval (rate_config (self p))) (r_interval r)
      in case (if r_burst r < 0.1
               then (let burst_size = randint 3 10 (r_burst_size r)
                     in case write_burst (map (r_lines r) [0..<nat burst_size]) p of
                          Inl e \<Rightarrow> Inl e
                        | Inr p' \<Rightarrow> Inr (print (burst_message (file_index (self p')) burst_size) p'))
               else write_one (r_lines r 0) p) of
           Inl e \<Rightarrow> Inl e
         | Inr p' \<Rightarrow> time_sleep interval p')"

text \<open>
  The loop runs in its own thread while the main thread may call \<open>stop\<close> at any moment.
  To follow the two together, the thread is also given step by step: \<open>pc\<close> is the
  statement it is about to execute, and \<open>interval\<close> its local variable.
\<close>

datatype pc =
    Opening            \<comment> \<open>before \<open>open(self.filepath, 'a')\<close>\<close>
  | While              \<comment> \<open>at the test \<open>while self.running\<close>\<close>
  | Burst nat nat      \<comment> \<open>in the burst loop, at round \<open>j\<close> of \<open>burst_size\<close>\<close>
  | Single             \<comment> \<open>before the single line\<close>
  | Sleeping           \<comment> \<open>at \<open>time.sleep(interval)\<close>\<close>
  | Returned           \<comment> \<open>the loop was left and the file closed\<close>
  | Raised error       \<comment> \<open>an exception ended the thread\<close>

record thread_state =
  st :: proc
  pc :: pc
  interval :: pyfloat
  round :: nat

definition step :: "(nat \<Rightarrow> iter_rand) \<Rightarrow> thread_state \<Rightarrow> thread_state" where
  "step rs t =
     (case pc t of
        Opening \<Rightarrow> t\<lparr>st := open_append (st t), pc := While\<rparr>
      | While \<Rightarrow>
          (if running (self (st t))
           then t\<lparr>interval := uniform (min_interval (rate_config (self (st t))))
                                     (max_interval (rate_config (self (st t))))
                                     (r_interval (rs (round t))),
                  pc := (if r_burst (rs (round t)) < 0.1
                         then Burst 0 (nat (randint 3 10 (r_burst_size (rs (round t)))))
                         else Single)\<rparr>
           else t\<lparr>st := f_close (st t), pc := Returned\<rparr>)
      | Burst j burst_size \<Rightarrow>
          (if j < burst_size
           then (case write_one (r_lines (rs (round t)) j) (st t) of
                   Inl e \<Rightarrow> t\<lparr>st := f_close (st t), pc := Raised e\<rparr>
                 | Inr p' \<Rightarrow> t\<lparr>st := p', pc := Burst (Suc j) burst_size\<rparr>)
           else t\<lparr>st := print (burst_message (file_index (self (st t))) (int burst_size)) (st t),
                  pc := Sleeping\<rparr>)
      | Single \<Rightarrow>
          (case write_one (r_lines (rs (round t)) 0) (st t) of
             Inl e \<Rightarrow> t\<lparr>st := f_close (st t), pc := Raised e\<rparr>
           | Inr p' \<Rightarrow> t\<lparr>st := p', pc := Sleeping\<rparr>)
      | Sleeping \<Rightarrow>
          (case time_sleep (interval t) (st t) of
             Inl e \<Rightarrow> t\<lparr>st := f_close (st t), pc := Raised e\<rparr>
           | Inr p' \<Rightarrow> t\<lparr>st := p', pc := While, round := Suc (round t)\<rparr>)
      | Returned \<Rightarrow> t
      | Raised e \<Rightarrow> t)"

definition finished :: "thread_state \<Rightarrow> bool" where
  "finished t = (case pc t of Returned \<Rightarrow> True | Raised e \<Rightarrow> True | _ \<Rightarrow> False)"

text \<open>\<open>self.thread.join()\<close> waits until the thread has ended; \<open>None\<close> is a wait without
  end.\<close>

partial_function (option) join :: "(nat \<Rightarrow> iter_rand) \<Rightarrow> thread_state \<Rightarrow> thread_state option" where
  "join rs t = (if finished t then Some t else join rs (step rs t))"

definition start :: "log_generator \<Rightarrow> filesystem \<Rightarrow> thread_state" where
  \<comment> \<open>\<open>start\<close>: the flag is set and a thread begins \<open>_generate_loop\<close>\<close>
  "start g fs =
     \<lparr>st = \<lparr>self = g\<lparr>running := True, thread := True\<rparr>, files = fs, f_buffer = [], events = []\<rparr>,
      pc = Opening, interval = Fin 0, round = 0\<rparr>"

definition raise_stop :: "thread_state \<Rightarrow> thread_state" where
  \<comment> \<open>\<open>self.running = False\<close>, executed by the main thread between two steps of the writer\<close>
  "raise_stop t = t\<lparr>st := (st t)\<lparr>self := (self (st t))\<lparr>running := False\<rparr>\<rparr>\<rparr>"

definition stop :: "(nat \<Rightarrow> iter_rand) \<Rightarrow> thread_state \<Rightarrow> thread_state option" where
  "stop rs t =
     (let t' = raise_stop t
      in if thread (self (st t')) then join rs t' else Some t')"

fun sleeps :: "event list \<Rightarrow> pyfloat list" where
  "sleeps [] = []"
| "sleeps (Slept x # es) = x # sleeps es"
| "sleeps (e # es) = sleeps es"

text \<open>Measures used to follow a stopped thread to its end, and the line a call of the
  synthesizer produces (it never fails, see \<open>generate_log_line_total\<close> below).\<close>

definition steps_left :: "thread_state \<Rightarrow> nat" where
  "steps_left t =
     (case pc t of
        Opening \<Rightarrow> 2
      | While \<Rightarrow> 1
      | Burst j burst_size \<Rightarrow> (burst_size - j) + 3
      | Single \<Rightarrow> 3
      | Sleeping \<Rightarrow> 2
      | Returned \<Rightarrow> 0
      | Raised e \<Rightarrow> 0)"

definition mid_round :: "thread_state \<Rightarrow> bool" where
  "mid_round t =
     (case pc t of Burst j n \<Rightarrow> True | Single \<Rightarrow> True | Sleeping \<Rightarrow> True | _ \<Rightarrow> False)"

definition the_line :: "line_rand \<Rightarrow> string" where
  "the_line d = (case generate_log_line d of Inr line \<Rightarrow> line | Inl e \<Rightarrow> [])"

section \<open>generate_test_logs.py: creating the files\<close>

text \<open>
  \<open>main\<close> resolves the rate, makes sure the output directory exists, and creates
  one file and one generator per index. The directory is taken to exist after
  \<open>mkdir(exist_ok=True)\<close>; the console output and the progress display of \<open>main\<close>
  are left out, as they decide nothing.
\<close>

definition open_truncate :: "filesystem \<Rightarrow> string \<Rightarrow> filesystem" where
  \<comment> \<open>\<open>open(path, 'w')\<close>\<close>
  "open_truncate fs path = fs(path \<mapsto> [])"

definition append_to :: "filesystem \<Rightarrow> string \<Rightarrow> string \<Rightarrow> filesystem" where
  \<comment> \<open>a \<open>write\<close> to an open file, once it has reached the file\<close>
  "append_to fs path s = fs(path \<mapsto> content fs path @ s)"

definition log_name :: "string \<Rightarrow> string \<Rightarrow> int \<Rightarrow> string" where
  \<comment> \<open>\<open>output_dir / f"{args.prefix}_{i+1}.log"\<close>\<close>
  "log_name dir prefix i = dir @ ''/'' @ prefix @ ''_'' @ str_int (i + 1) @ ''.log''"

text \<open>The header of lines 256 to 259. \<open>now\<close> is the text of \<open>datetime.now()\<close> and
  \<open>float_str\<close> the text Python prints for a float.\<close>

definition write_header ::
  "string \<Rightarrow> (pyfloat \<Rightarrow> string) \<Rightarrow> rate_config \<Rightarrow> string \<Rightarrow> filesystem \<Rightarrow> filesystem" where
  "write_header now float_str cfg path fs =
     (let fs = open_truncate fs path;
          fs = append_to fs path (''# Log file generated at '' @ now @ [CHR 0x0A]);
          fs = append_to fs path (''# Rate: '' @ float_str (min_interval cfg) @ ''-'' @
                                  float_str (max_interval cfg) @ ''s'' @ [CHR 0x0A]);
          fs = append_to fs path (''# ============================================'' @ [CHR 0x0A])
      in fs)"

fun create_log_files ::
  "namespace \<Rightarrow> rate_config \<Rightarrow> (nat \<Rightarrow> string) \<Rightarrow> (pyfloat \<Rightarrow> string) \<Rightarrow> nat list \<Rightarrow>
   filesystem \<times> log_generator list \<Rightarrow> filesystem \<times> log_generator list" where
  \<comment> \<open>\<open>for i in range(args.files)\<close>, lines 252 to 263; \<open>clock i\<close> is the clock at round \<open>i\<close>\<close>
  "create_log_files a cfg clock float_str [] (fs, generators) = (fs, generators)"
| "create_log_files a cfg clock float_str (i # rest) (fs, generators) =
     (let path = log_name (a_dir a) (a_prefix a) (int i);
          fs' = write_header (clock i) float_str cfg path fs;
          generator = LogGenerator path cfg (int i + 1)
      in create_log_files a cfg clock float_str rest (fs', generators @ [generator]))"

definition main_setup ::
  "namespace \<Rightarrow> (nat \<Rightarrow> string) \<Rightarrow> (pyfloat \<Rightarrow> string) \<Rightarrow> filesystem \<Rightarrow>
   error + (filesystem \<times> log_generator list)" where
  \<comment> \<open>\<open>main\<close> up to the point where the generators are started\<close>
  "main_setup a clock float_str fs =
     (case resolve_rate a of
        Inl e \<Rightarrow> Inl e
      | Inr cfg \<Rightarrow> Inr (create_log_files a cfg clock float_str [0..<nat (a_files a)] (fs, [])))"

definition count_lines :: "string \<Rightarrow> nat" where
  "count_lines s = length (filter (\<lambda>c. c = CHR 0x0A) s)"

text \<open>The three lines the header consists of.\<close>

definition header_text :: "string \<Rightarrow> (pyfloat \<Rightarrow> string) \<Rightarrow> rate_config \<Rightarrow> string" where
  "header_text now float_str cfg =
     ''# Log file generated at '' @ now @ [CHR 0x0A] @
     ''# Rate: '' @ float_str (min_interval cfg) @ ''-'' @ float_str (max_interval cfg) @ ''s'' @
       [CHR 0x0A] @
     ''# ============================================'' @ [CHR 0x0A]"

section \<open>test_tail_tree.py: the layout\<close>

text \<open>
  The script takes its three parameters from the command line with \<open>int(...)\<close> and
  no further check, builds the layout text group by group, creating the log files of
  each group on the way, writes the layout file, and then starts \<open>append_logs\<close> in a
  background thread. Console output and the build and launch of the viewer are left out.
\<close>

definition LOG_DIR :: string where
  "LOG_DIR = ''test_logs''"

definition LAYOUT_FILE :: string where
  "LAYOUT_FILE = ''test_tree_layout.yaml''"

definition group_names :: "string list" where
  "group_names = [''Application Logs'', ''System Logs'', ''Service Logs'', ''Database Logs'',
                  ''Network Logs'', ''Security Logs'', ''Performance Logs'', ''Error Logs'']"

text \<open>The icons are emoji; as the layout is written in UTF-8, they are given by their
  bytes.\<close>

definition icons :: "string list" where
  "icons =
     [[CHR 0xF0, CHR 0x9F, CHR 0x93, CHR 0xB1],
      [CHR 0xF0, CHR 0x9F, CHR 0x96, CHR 0xA5, CHR 0xEF, CHR 0xB8, CHR 0x8F],
      [CHR 0xE2, CHR 0x9A, CHR 0x99, CHR 0xEF, CHR 0xB8, CHR 0x8F],
      [CHR 0xF0, CHR 0x9F, CHR 0x97, CHR 0x84, CHR 0xEF, CHR 0xB8, CHR 0x8F],
      [CHR 0xF0, CHR 0x9F, CHR 0x8C, CHR 0x90],
      [CHR 0xF0, CHR 0x9F, CHR 0x94, CHR 0x92],
      [CHR 0xF0, CHR 0x9F, CHR 0x93, CHR 0x8A],
      [CHR 0xE2, CHR 0x9D, CHR 0x8C]]"

definition test_log_path :: "int \<Rightarrow> string" where
  "test_log_path num = LOG_DIR @ ''/test_'' @ str_int num @ ''.log''"

definition create_log_file :: "(int \<Rightarrow> string) \<Rightarrow> int \<Rightarrow> filesystem \<Rightarrow> filesystem" where
  \<comment> \<open>\<open>clock num\<close> is the formatted clock when file \<open>num\<close> is created\<close>
  "create_log_file clock num fs =
     (let file_path = test_log_path num;
          timestamp = clock num;
          fs = open_truncate fs file_path;
          fs = append_to fs file_path
                 (''['' @ timestamp @ ''] Starting test log '' @ str_int num @ [CHR 0x0A]);
          fs = append_to fs file_path
                 (''['' @ timestamp @ ''] Initial content for testing'' @ [CHR 0x0A])
      in fs)"

text \<open>
  \<open>generate_group\<close> builds the text of one group and creates its files. The model
  returns the group as a value; \<open>render_group\<close> below gives the text the script
  builds from it. A file is referred to by its number, from which path and display name
  are printed.
\<close>

datatype layout_body =
    Flat "int list"                 \<comment> \<open>\<open>files:\<close>\<close>
  | Nested "int list" "int list"    \<comment> \<open>\<open>groups:\<close> "Core Services" and "Background Jobs"\<close>

record layout_group =
  g_name :: string
  g_icon :: string
  g_collapsed :: string
  g_body :: layout_body

definition generate_group ::
  "bool \<Rightarrow> (int \<Rightarrow> string) \<Rightarrow> int \<Rightarrow> int \<Rightarrow> int \<Rightarrow> filesystem \<Rightarrow> layout_group \<times> filesystem" where
  "generate_group NESTED clock group_num files_per_group start_file fs =
     (let group_name = group_names ! nat (group_num mod int (length group_names));
          icon = icons ! nat (group_num mod int (length icons));
          collapsed = (if group_num > 1 then ''true'' else ''false'')
      in if NESTED \<and> group_num = 0
         then (let nested_files = files_per_group div 2;
                   core = map (\<lambda>j. start_file + j) [0..nested_files - 1];
                   background = map (\<lambda>j. start_file + j) [nested_files..files_per_group - 1]
               in (\<lparr>g_name = group_name, g_icon = icon, g_collapsed = collapsed,
                     g_body = Nested core background\<rparr>,
                   fold (create_log_file clock) (core @ background) fs))
         else (let nums = map (\<lambda>j. start_file + j) [0..files_per_group - 1]
               in (\<lparr>g_name = group_name, g_icon = icon, g_collapsed = collapsed,
                     g_body = Flat nums\<rparr>,
                   fold (create_log_file clock) nums fs)))"

definition render_file :: "string \<Rightarrow> string \<Rightarrow> int \<Rightarrow> string" where
  "render_file pre cwd file_num =
     pre @ ''- path: '' @ [CHR 0x22] @ cwd @ ''/'' @ test_log_path file_num @ [CHR 0x22, CHR 0x0A] @
     pre @ ''  name: '' @ [CHR 0x22] @ ''Test Log '' @ str_int file_num @ [CHR 0x22, CHR 0x0A]"

definition render_group :: "string \<Rightarrow> string \<Rightarrow> layout_group \<Rightarrow> string" where
  "render_group indent cwd g =
     indent @ ''- name: '' @ [CHR 0x22] @ g_name g @ [CHR 0x22, CHR 0x0A] @
     indent @ ''  icon: '' @ [CHR 0x22] @ g_icon g @ [CHR 0x22, CHR 0x0A] @
     indent @ ''  collapsed: '' @ g_collapsed g @ [CHR 0x0A] @
     (case g_body g of
        Nested core background \<Rightarrow>
          indent @ ''  groups:'' @ [CHR 0x0A] @
          indent @ ''    - name: '' @ [CHR 0x22] @ ''Core Services'' @ [CHR 0x22, CHR 0x0A] @
          indent @ ''      files:'' @ [CHR 0x0A] @
          concat (map (render_file (indent @ ''        '') cwd) core) @
          indent @ ''    - name: '' @ [CHR 0x22] @ ''Background Jobs'' @ [CHR 0x22, CHR 0x0A] @
          indent @ ''      collapsed: true'' @ [CHR 0x0A] @
          indent @ ''      files:'' @ [CHR 0x0A] @
          concat (map (render_file (indent @ ''        '') cwd) background)
      | Flat nums \<Rightarrow>
          indent @ ''  files:'' @ [CHR 0x0A] @
          concat (map (render_file (indent @ ''    '') cwd) nums))"

definition yaml_head :: "int \<Rightarrow> int \<Rightarrow> string" where
  "yaml_head NUM_GROUPS NUM_FILES =
     ''name: '' @ [CHR 0x22] @ ''Test Tree Layout - '' @ str_int NUM_GROUPS @ '' groups, '' @
        str_int NUM_FILES @ '' files'' @ [CHR 0x22, CHR 0x0A] @
     ''version: 1'' @ [CHR 0x0A] @
     ''settings:'' @ [CHR 0x0A] @
     ''  poll_interval_ms: 250'' @ [CHR 0x0A] @
     ''  auto_expand_active: true'' @ [CHR 0x0A] @
     [CHR 0x0A] @
     ''groups:'' @ [CHR 0x0A]"

fun group_loop ::
  "bool \<Rightarrow> (int \<Rightarrow> string) \<Rightarrow> int \<Rightarrow> int \<Rightarrow> nat list \<Rightarrow> int \<Rightarrow> filesystem \<Rightarrow>
   layout_group list \<times> filesystem" where
  \<comment> \<open>\<open>for i in range(NUM_GROUPS)\<close>, lines 135 to 140\<close>
  "group_loop NESTED clock files_per_group remainder [] file_counter fs = ([], fs)"
| "group_loop NESTED clock files_per_group remainder (i # rest) file_counter fs =
     (let files_in_group = files_per_group + (if int i < remainder then 1 else 0);
          (g, fs') = generate_group NESTED clock (int i) files_in_group file_counter fs;
          (gs, fs'') = group_loop NESTED clock files_per_group remainder rest
                         (file_counter + files_in_group) fs'
      in (g # gs, fs''))"

definition build_layout ::
  "int \<Rightarrow> int \<Rightarrow> bool \<Rightarrow> string \<Rightarrow> (int \<Rightarrow> string) \<Rightarrow> filesystem \<Rightarrow>
   error + (layout_group list \<times> filesystem)" where
  \<comment> \<open>the module from line 119 to line 144; \<open>cwd\<close> is \<open>Path.cwd()\<close>\<close>
  "build_layout NUM_FILES NUM_GROUPS NESTED cwd clock fs =
     (if NUM_GROUPS = 0 then Inl ZeroDivisionError
      else (let files_per_group = NUM_FILES div NUM_GROUPS;
                remainder = NUM_FILES mod NUM_GROUPS;
                (gs, fs') = group_loop NESTED clock files_per_group remainder
                              [0..<nat NUM_GROUPS] 1 fs;
                yaml_content = yaml_head NUM_GROUPS NUM_FILES @
                               concat (map (render_group ''  '' cwd) gs)
            in Inr (gs, fs'(LAYOUT_FILE \<mapsto> yaml_content))))"

text \<open>
  \<open>append_logs\<close>, lines 152 to 184. Each round picks between one and three files
  by \<open>random.randint(1, NUM_FILES)\<close>, which raises \<open>ValueError\<close> on an empty
  range, and appends one line to each, creating the file if it is missing. An exception
  ends the appender thread only; what it wrote before stays. \<open>rounds\<close> are the draws
  of the rounds the loop begins before it sees \<open>should_stop\<close>.
\<close>

definition randint_checked :: "int \<Rightarrow> int \<Rightarrow> nat \<Rightarrow> error + int" where
  \<comment> \<open>\<open>random.randint(a, b)\<close> where the bounds are not constants\<close>
  "randint_checked a b r = (if b < a then Inl ValueError else Inr (randint a b r))"

definition messages :: "string list" where
  "messages =
     [''Processing request from client'', ''Database connection established'',
      ''Cache hit for key'', ''Starting background job'', ''Completed transaction'',
      ''Warning: High memory usage detected'', ''Error: Connection timeout'',
      ''Info: Service health check passed'', ''Debug: Query execution time'',
      ''Metric: Response time'']"

definition levels :: "string list" where
  "levels = [''INFO'', ''WARN'', ''ERROR'', ''DEBUG'']"

record pick_rand =
  k_file_num :: nat
  k_level :: nat
  k_msg :: nat
  k_now :: string
  k_value :: nat

record append_rand =
  n_updates :: nat
  n_picks :: "nat \<Rightarrow> pick_rand"
  n_sleep :: real

definition append_one :: "int \<Rightarrow> pick_rand \<Rightarrow> filesystem \<Rightarrow> error + filesystem" where
  \<comment> \<open>one round of \<open>for _ in range(files_to_update)\<close>\<close>
  "append_one NUM_FILES k fs =
     (case randint_checked 1 NUM_FILES (k_file_num k) of
        Inl e \<Rightarrow> Inl e
      | Inr file_num \<Rightarrow>
          (let file_path = test_log_path file_num;
               level = choice levels (k_level k);
               msg = choice messages (k_msg k);
               timestamp = take (length (k_now k) - 3) (k_now k);
               value = randint 0 999 (k_value k)
           in Inr (append_to fs file_path
                     (''['' @ timestamp @ ''] ['' @ level @ ''] '' @ msg @ '' '' @ str_int value @
                      [CHR 0x0A]))))"

fun append_picks :: "int \<Rightarrow> pick_rand list \<Rightarrow> filesystem \<Rightarrow> error option \<times> filesystem" where
  "append_picks NUM_FILES [] fs = (None, fs)"
| "append_picks NUM_FILES (k # ks) fs =
     (case append_one NUM_FILES k fs of
        Inl e \<Rightarrow> (Some e, fs)
      | Inr fs' \<Rightarrow> append_picks NUM_FILES ks fs')"

definition append_round :: "int \<Rightarrow> append_rand \<Rightarrow> filesystem \<Rightarrow> error option \<times> filesystem" where
  \<comment> \<open>one round of \<open>while not should_stop\<close>\<close>
  "append_round NUM_FILES a fs =
     (let files_to_update = randint 1 3 (n_updates a)
      in case append_picks NUM_FILES (map (n_picks a) [0..<nat files_to_update]) fs of
           (Some e, fs') \<Rightarrow> (Some e, fs')
         | (None, fs') \<Rightarrow> (sleep_error (uniform (Fin 0.1) (Fin 1.0) (n_sleep a)), fs'))"

fun append_logs :: "int \<Rightarrow> append_rand list \<Rightarrow> filesystem \<Rightarrow> error option \<times> filesystem" where
  "append_logs NUM_FILES [] fs = (None, fs)"
| "append_logs NUM_FILES (a # rounds) fs =
     (case append_round NUM_FILES a fs of
        (Some e, fs') \<Rightarrow> (Some e, fs')
      | (None, fs') \<Rightarrow> append_logs NUM_FILES rounds fs')"

text \<open>A run of the script: what the main thread raised, what the appender thread
  raised, the groups of the layout, and the files at the end.\<close>

record script_run =
  main_raised :: "error option"
  appender_raised :: "error option"
  layout :: "layout_group list"
  disk :: filesystem

definition tail_tree_script ::
  "int \<Rightarrow> int \<Rightarrow> bool \<Rightarrow> string \<Rightarrow> (int \<Rightarrow> string) \<Rightarrow> append_rand list \<Rightarrow> filesystem \<Rightarrow>
   script_run" where
  "tail_tree_script NUM_FILES NUM_GROUPS NESTED cwd clock rounds fs =
     (case build_layout NUM_FILES NUM_GROUPS NESTED cwd clock fs of
        Inl e \<Rightarrow> \<lparr>main_raised = Some e, appender_raised = None, layout = [], disk = fs\<rparr>
      | Inr (gs, fs') \<Rightarrow>
          (case append_logs NUM_FILES rounds fs' of
             (err, fs'') \<Rightarrow>
               \<lparr>main_raised = None, appender_raised = err, layout = gs, disk = fs''\<rparr>))"

fun group_files :: "layout_body \<Rightarrow> int list" where
  "group_files (Flat nums) = nums"
| "group_files (Nested core background) = core @ background"

definition group_size :: "layout_group \<Rightarrow> nat" where
  "group_size g = length (group_files (g_body g))"

text \<open>What the loop of the layout script makes of the group at position \<open>i\<close>.\<close>

definition group_ok :: "bool \<Rightarrow> int \<Rightarrow> int \<Rightarrow> nat \<Rightarrow> layout_group \<Rightarrow> bool" where
  "group_ok NESTED files_per_group remainder i g =
     (let k = files_per_group + (if int i < remainder then 1 else 0)
      in g_name g = group_names ! (i mod 8) \<and>
         g_icon g = icons ! (i mod 8) \<and>
         g_collapsed g = (if 1 < i then ''true'' else ''false'') \<and>
         (if NESTED \<and> i = 0
          then (\<exists>core background. g_body g = Nested core background \<and>
                  length core = nat (k div 2) \<and> length background = nat (k - k div 2))
          else (\<exists>nums. g_body g = Flat nums \<and> length nums = nat k)))"

text \<open>The invariant of a thread that cannot fail at its sleep.\<close>

definition safe :: "rate_config \<Rightarrow> thread_state \<Rightarrow> bool" where
  "safe c t \<longleftrightarrow>
     rate_config (self (st t)) = c \<and> (\<not> mid_round t \<or> sleep_error (interval t) = None) \<and>
     (case pc t of Raised e \<Rightarrow> False | _ \<Rightarrow> True)"

text \<open>Reading a decimal numeral back, to tell the file names apart.\<close>

definition digit_val :: "char \<Rightarrow> nat" where
  "digit_val c = of_char c - 48"

definition read_nat :: "string \<Rightarrow> nat" where
  "read_nat s = foldl (\<lambda>a c. 10 * a + digit_val c) 0 s"

section \<open>Sample inputs\<close>

text \<open>Concrete inputs at which the theorems below are instantiated.\<close>

definition sample_line :: line_rand where
  "sample_line =
     \<lparr>r_now = ''2024-01-02 03:04:05.123456'', r_level0 = 3, r_component = 9, r_level = 0.85,
      r_template = 22, r_noun = 1, r_action = 2, r_user_id = 12345, r_latency = 7, r_status = 4,
      r_percentage = 5, r_count = 6, r_max_count = 7, r_error = 8, r_method = 9, r_job_name = 10,
      r_endpoint = 11, r_filename = 12, r_timeout = 13, r_attempt = 14, r_idle = 15, r_size = 16,
      r_max_size = 17\<rparr>"

definition sample_single :: iter_rand where
  "sample_single =
     \<lparr>r_interval = 1/2, r_burst = 1/2, r_burst_size = 4, r_lines = (\<lambda>j. sample_line)\<rparr>"

definition sample_burst :: iter_rand where
  "sample_burst =
     \<lparr>r_interval = 1/2, r_burst = 1/20, r_burst_size = 4, r_lines = (\<lambda>j. sample_line)\<rparr>"

definition sample_rounds :: "nat \<Rightarrow> iter_rand" where
  "sample_rounds k = sample_burst"

definition sample_proc :: "rate_config \<Rightarrow> proc" where
  "sample_proc cfg =
     \<lparr>self = (LogGenerator ''test_logs/test_1.log'' cfg 1)\<lparr>running := True, thread := True\<rparr>,
      files = Map.empty, f_buffer = [], events = []\<rparr>"

definition sample_mid_burst :: thread_state where
  "sample_mid_burst =
     \<lparr>st = sample_proc \<lparr>min_interval = Fin 0.1, max_interval = Fin 0.5\<rparr>, pc = Burst 2 7,
      interval = Fin 0.3, round = 0\<rparr>"

definition sample_args :: "pyfloat option \<Rightarrow> pyfloat option \<Rightarrow> namespace" where
  "sample_args lo hi =
     \<lparr>a_files = 3, a_duration = 60, a_dir = ''test_logs'', a_rate = ''medium'',
      a_min_interval = lo, a_max_interval = hi, a_prefix = ''test''\<rparr>"

definition sample_clock :: "nat \<Rightarrow> string" where
  "sample_clock i = ''2024-01-02 03:04:05.123456''"

definition sample_float_str :: "pyfloat \<Rightarrow> string" where
  "sample_float_str x = ''0.5''"

definition sample_stamp :: "int \<Rightarrow> string" where
  "sample_stamp num = ''2024-01-02 03:04:05''"

definition sample_append :: append_rand where
  "sample_append =
     \<lparr>n_updates = 1,
      n_picks = (\<lambda>j. \<lparr>k_file_num = 4, k_level = 1, k_msg = 2,
                          k_now = ''2024-01-02 03:04:05.123456'', k_value = 7\<rparr>),
      n_sleep = 1/2\<rparr>"

section \<open>Facts about the random source and the synthesizer\<close>

lemma choice_mem: "seq \<noteq> [] \<Longrightarrow> choice seq r \<in> set seq"
  by (simp add: choice_def)

lemma bisect_le: "bisect a x hi \<le> hi"
  unfolding bisect_def by (rule order_trans[OF length_filter_le]) simp

lemma choices_mem:
  assumes "population \<noteq> []"
  shows "choices population weights u \<in> set population"
proof -
  have "0 < length population" using assms by simp
  then have "bisect a x (length population - 1) < length population" for a x
    using bisect_le[of a x "length population - 1"] by linarith
  then show ?thesis by (simp add: choices_def Let_def)
qed

lemma format_total:
  "(\<forall>k. Hole k \<in> set tpl \<longrightarrow> k \<in> dom kw) \<Longrightarrow> \<exists>m. format tpl kw = Inr m"
proof (induction tpl)
  case Nil
  then show ?case by simp
next
  case (Cons s tpl)
  then obtain m where m: "format tpl kw = Inr m" by auto
  show ?case
  proof (cases s)
    case (Lit x)
    then show ?thesis using m by simp
  next
    case (Hole k)
    then have "k \<in> dom kw" using Cons.prems by simp
    then show ?thesis using m Hole by auto
  qed
qed

lemma dom_kwargs:
  "dom (map_of (kwargs d)) = {''noun'', ''action'', ''user_id'', ''latency'', ''status'',
     ''percentage'', ''count'', ''max_count'', ''error'', ''method'', ''job_name'', ''endpoint'',
     ''filename'', ''timeout'', ''attempt'', ''max_attempts'', ''idle'', ''size'', ''max_size''}"
  unfolding dom_map_of_conv_image_fst kwargs_def by simp

lemma templates_closed:
  "tpl \<in> set MESSAGE_TEMPLATES \<Longrightarrow> Hole k \<in> set tpl \<Longrightarrow> k \<in> dom (map_of (kwargs d))"
  unfolding dom_kwargs unfolding MESSAGE_TEMPLATES_def by auto

lemma message_total:
  "\<exists>m. format (choice MESSAGE_TEMPLATES r) (map_of (kwargs d)) = Inr m"
proof -
  have "choice MESSAGE_TEMPLATES r \<in> set MESSAGE_TEMPLATES"
    by (rule choice_mem) (simp add: MESSAGE_TEMPLATES_def)
  then have "\<forall>k. Hole k \<in> set (choice MESSAGE_TEMPLATES r) \<longrightarrow> k \<in> dom (map_of (kwargs d))"
    using templates_closed by blast
  then show ?thesis by (rule format_total)
qed

lemma generate_log_line_total: "\<exists>line. generate_log_line d = Inr line"
proof -
  obtain m where "format (choice MESSAGE_TEMPLATES (r_template d)) (map_of (kwargs d)) = Inr m"
    using message_total by blast
  then show ?thesis by (simp add: generate_log_line_def Let_def)
qed

lemma level_width: "level \<in> set LOG_LEVELS \<Longrightarrow> length (pad 5 level) = 5"
  by (auto simp: LOG_LEVELS_def pad_def)

lemma component_width: "component \<in> set LOG_COMPONENTS \<Longrightarrow> length (pad 15 component) = 15"
  by (auto simp: LOG_COMPONENTS_def pad_def)

section \<open>Facts about floats\<close>

lemma sleep_limit_small: "SLEEP_LIMIT \<le> 2 ^ 63"
  by (simp add: SLEEP_LIMIT_def)

lemma float_max_large: "2 ^ 64 \<le> FLOAT_MAX"
proof -
  have "(2::real) ^ 64 \<le> 2 ^ 971" by (rule power_increasing) simp_all
  moreover have "(2::real) ^ 1024 = 2 ^ 971 * 2 ^ 53" by (simp add: power_add[symmetric])
  moreover have "(2::real) ^ 971 * 2 \<le> 2 ^ 971 * 2 ^ 53"
    by (rule mult_left_mono) simp_all
  ultimately show ?thesis by (simp add: FLOAT_MAX_def)
qed

lemma fl_fin: "\<bar>x\<bar> \<le> FLOAT_MAX \<Longrightarrow> fl x = Fin x"
  by (auto simp: fl_def)

lemma affine_range:
  fixes a b u :: real
  assumes "0 \<le> u" "u \<le> 1"
  shows "min a b \<le> a + (b - a) * u \<and> a + (b - a) * u \<le> max a b"
proof (cases "a \<le> b")
  case True
  have "0 \<le> (b - a) * u" using True assms by simp
  moreover have "(b - a) * u \<le> (b - a) * 1"
    using True assms by (intro mult_left_mono) auto
  ultimately show ?thesis using True by simp
next
  case False
  then have ba: "0 \<le> a - b" by simp
  have "0 \<le> (a - b) * u" using ba assms by simp
  moreover have "(a - b) * u \<le> (a - b) * 1"
    using ba assms by (intro mult_left_mono) auto
  ultimately show ?thesis using False by (simp add: algebra_simps)
qed

text \<open>On finite bounds whose difference does not overflow, a draw is the exact value.\<close>

lemma uniform_fin:
  assumes u: "0 \<le> u" "u \<le> 1"
      and a: "\<bar>a\<bar> \<le> FLOAT_MAX" and b: "\<bar>b\<bar> \<le> FLOAT_MAX"
      and d: "\<bar>b - a\<bar> \<le> FLOAT_MAX"
  shows "uniform (Fin a) (Fin b) u = Fin (a + (b - a) * u)"
proof -
  have s: "fl (b - a) = Fin (b - a)"
    using d by (rule fl_fin)
  have "\<bar>(b - a) * u\<bar> \<le> \<bar>b - a\<bar> * 1"
    unfolding abs_mult using u by (intro mult_left_mono) auto
  then have m: "fl ((b - a) * u) = Fin ((b - a) * u)"
    using d by (intro fl_fin) simp
  have "\<bar>a + (b - a) * u\<bar> \<le> FLOAT_MAX"
    using affine_range[OF u, of a b] a b by (auto simp: abs_le_iff min_def max_def split: if_splits)
  then have r: "fl (a + (b - a) * u) = Fin (a + (b - a) * u)"
    by (rule fl_fin)
  show ?thesis by (simp add: uniform_def fsub_def s m r)
qed

lemma uniform_small:
  assumes "0 \<le> u" "u \<le> 1" "\<bar>a\<bar> \<le> 2 ^ 63" "\<bar>b\<bar> \<le> 2 ^ 63"
  shows "uniform (Fin a) (Fin b) u = Fin (a + (b - a) * u)"
proof -
  define M :: real where "M = 2 ^ 63"
  have M2: "M + M \<le> FLOAT_MAX" and M0: "0 \<le> M"
    using float_max_large by (simp_all add: M_def)
  have ab: "\<bar>a\<bar> \<le> M" "\<bar>b\<bar> \<le> M" using assms(3,4) by (simp_all add: M_def)
  have "\<bar>b - a\<bar> \<le> \<bar>b\<bar> + \<bar>a\<bar>" by simp
  then have "\<bar>b - a\<bar> \<le> FLOAT_MAX" using ab M2 by linarith
  moreover have "\<bar>a\<bar> \<le> FLOAT_MAX" "\<bar>b\<bar> \<le> FLOAT_MAX"
    using ab M2 M0 by linarith+
  ultimately show ?thesis using assms(1,2) by (intro uniform_fin)
qed

section \<open>Facts about the writer\<close>

lemma write_one_effect:
  assumes "write_one d p = Inr p'"
  shows "\<exists>line. generate_log_line d = Inr line \<and>
           events p' = events p @ [Wrote line, Flushed] \<and>
           self p' = (self p)\<lparr>lines_written := lines_written (self p) + 1\<rparr> \<and>
           files p' = (files p)(filepath (self p) \<mapsto>
                         content (files p) (filepath (self p)) @ f_buffer p @ line) \<and>
           f_buffer p' = []"
  using assms
  by (auto simp: write_one_def f_write_def f_flush_def count_line_def split: sum.splits)

lemma write_one_total: "\<exists>p'. write_one d p = Inr p'"
  using generate_log_line_total[of d] by (auto simp: write_one_def)

lemma sleeps_append: "sleeps (xs @ ys) = sleeps xs @ sleeps ys"
  by (induction xs rule: sleeps.induct) auto

text \<open>One step of a thread whose flag is down: it gets closer to its end, keeps its
  drawn interval, and sleeps only in the step at \<open>Sleeping\<close>.\<close>

lemma step_stopped:
  assumes "\<not> running (self (st t))" "\<not> finished t"
  shows "\<not> running (self (st (step rs t))) \<and> steps_left (step rs t) < steps_left t \<and>
         interval (step rs t) = interval t \<and>
         (\<exists>new. events (st (step rs t)) = events (st t) @ new \<and>
                 sleeps new = (if pc t = Sleeping \<and> pc (step rs t) = While then [interval t] else [])) \<and>
         (mid_round (step rs t) \<longrightarrow> mid_round t \<and> pc t \<noteq> Sleeping)"
proof (cases "pc t")
  case Opening
  then show ?thesis using assms by (simp add: mid_round_def step_def steps_left_def open_append_def)
next
  case While
  then show ?thesis using assms by (simp add: mid_round_def step_def steps_left_def f_close_def)
next
  case (Burst j n)
  show ?thesis
  proof (cases "j < n")
    case True
    obtain p' where p': "write_one (r_lines (rs (round t)) j) (st t) = Inr p'"
      using write_one_total by blast
    from write_one_effect[OF p'] show ?thesis using assms Burst True p'
      by (auto simp: mid_round_def step_def steps_left_def)
  next
    case False
    then show ?thesis using assms Burst
      by (simp add: mid_round_def step_def steps_left_def print_def)
  qed
next
  case Single
  obtain p' where p': "write_one (r_lines (rs (round t)) 0) (st t) = Inr p'"
    using write_one_total by blast
  from write_one_effect[OF p'] show ?thesis using assms Single p'
    by (auto simp: mid_round_def step_def steps_left_def)
next
  case Sleeping
  then show ?thesis using assms
    by (auto simp: mid_round_def step_def steps_left_def time_sleep_def f_close_def
          split: option.splits)
next
  case Returned
  then show ?thesis using assms by (simp add: finished_def)
next
  case (Raised e)
  then show ?thesis using assms by (simp add: finished_def)
qed

lemma join_stopped:
  "\<not> running (self (st t)) \<Longrightarrow>
   \<exists>t' new. join rs t = Some t' \<and> finished t' \<and> events (st t') = events (st t) @ new \<and>
      (sleeps new = [] \<or> sleeps new = [interval t]) \<and>
      (mid_round t \<or> sleeps new = [])"
proof (induction "steps_left t" arbitrary: t rule: less_induct)
  case less
  show ?case
  proof (cases "finished t")
    case True
    then have "join rs t = Some t" by (simp add: join.simps)
    then show ?thesis using True by auto
  next
    case False
    let ?u = "step rs t"
    note s = step_stopped[OF less.prems False, of rs]
    from s have lt: "steps_left ?u < steps_left t" and nr: "\<not> running (self (st ?u))" by auto
    from less.hyps[OF lt nr] obtain t' new where
      j: "join rs ?u = Some t'" and f: "finished t'" and
      e: "events (st t') = events (st ?u) @ new" and
      sl: "sleeps new = [] \<or> sleeps new = [interval ?u]" and
      w: "mid_round ?u \<or> sleeps new = []" by blast
    from s obtain new0 where
      e0: "events (st ?u) = events (st t) @ new0" and
      s0: "sleeps new0 = (if pc t = Sleeping \<and> pc ?u = While then [interval t] else [])" by blast
    have "join rs t = Some t'" using False j by (subst join.simps) simp
    moreover have "events (st t') = events (st t) @ (new0 @ new)" using e e0 by simp
    moreover have "sleeps (new0 @ new) = [] \<or> sleeps (new0 @ new) = [interval t]"
      using s0 sl w s by (auto simp: sleeps_append)
    moreover have "mid_round t \<or> sleeps (new0 @ new) = []"
      using s0 sl w s by (auto simp: sleeps_append mid_round_def)
    ultimately show ?thesis using f by blast
  qed
qed

lemma write_one_the_line:
  "\<exists>p'. write_one d p = Inr p' \<and>
     events p' = events p @ [Wrote (the_line d), Flushed] \<and>
     self p' = (self p)\<lparr>lines_written := lines_written (self p) + 1\<rparr> \<and>
     files p' = (files p)(filepath (self p) \<mapsto>
                   content (files p) (filepath (self p)) @ f_buffer p @ the_line d) \<and>
     f_buffer p' = []"
proof -
  obtain p' where p': "write_one d p = Inr p'" using write_one_total by blast
  from write_one_effect[OF p'] p' show ?thesis by (auto simp: the_line_def)
qed

lemma write_burst_effect:
  "\<exists>p'. write_burst ds p = Inr p' \<and>
     events p' = events p @ concat (map (\<lambda>d. [Wrote (the_line d), Flushed]) ds) \<and>
     self p' = (self p)\<lparr>lines_written := lines_written (self p) + int (length ds)\<rparr> \<and>
     (ds \<noteq> [] \<longrightarrow> f_buffer p' = [] \<and>
        files p' (filepath (self p)) =
          Some (content (files p) (filepath (self p)) @ f_buffer p @ concat (map the_line ds))) \<and>
     (\<forall>q. q \<noteq> filepath (self p) \<longrightarrow> files p' q = files p q)"
proof (induction ds arbitrary: p)
  case Nil
  show ?case by simp
next
  case (Cons d ds)
  obtain p1 where p1: "write_one d p = Inr p1"
    "events p1 = events p @ [Wrote (the_line d), Flushed]"
    "self p1 = (self p)\<lparr>lines_written := lines_written (self p) + 1\<rparr>"
    "files p1 = (files p)(filepath (self p) \<mapsto>
                   content (files p) (filepath (self p)) @ f_buffer p @ the_line d)"
    "f_buffer p1 = []"
    using write_one_the_line[of d p] by blast
  have unfold: "write_burst (d # ds) p = write_burst ds p1"
    by (simp add: p1(1))
  have path1: "filepath (self p1) = filepath (self p)"
    by (simp add: p1(3))
  have file1: "content (files p1) (filepath (self p)) =
                 content (files p) (filepath (self p)) @ f_buffer p @ the_line d"
    by (simp add: p1(4) content_def)
  from Cons.IH[of p1] obtain p' where p': "write_burst ds p1 = Inr p'"
     "events p' = events p1 @ concat (map (\<lambda>d. [Wrote (the_line d), Flushed]) ds)"
     "self p' = (self p1)\<lparr>lines_written := lines_written (self p1) + int (length ds)\<rparr>"
     "ds \<noteq> [] \<longrightarrow> f_buffer p' = [] \<and>
        files p' (filepath (self p1)) =
          Some (content (files p1) (filepath (self p1)) @ f_buffer p1 @ concat (map the_line ds))"
     "\<forall>q. q \<noteq> filepath (self p1) \<longrightarrow> files p' q = files p1 q"
    by blast
  have r: "write_burst (d # ds) p = Inr p'"
    by (simp only: unfold p'(1))
  have e: "events p' = events p @ concat (map (\<lambda>d. [Wrote (the_line d), Flushed]) (d # ds))"
    by (simp add: p'(2) p1(2))
  have s: "self p' = (self p)\<lparr>lines_written := lines_written (self p) + int (length (d # ds))\<rparr>"
    by (simp add: p'(3) p1(3))
  have o: "\<forall>q. q \<noteq> filepath (self p) \<longrightarrow> files p' q = files p q"
  proof (intro allI impI)
    fix q assume q: "q \<noteq> filepath (self p)"
    then have "files p' q = files p1 q" using p'(5) path1 by simp
    also have "\<dots> = files p q" using q by (simp add: p1(4))
    finally show "files p' q = files p q" .
  qed
  have f: "f_buffer p' = [] \<and>
        files p' (filepath (self p)) =
          Some (content (files p) (filepath (self p)) @ f_buffer p @ concat (map the_line (d # ds)))"
  proof (cases "ds = []")
    case True
    then have "p' = p1" using p'(1) by simp
    then show ?thesis by (simp add: True p1(4) p1(5))
  next
    case False
    with p'(4) have b: "f_buffer p' = []" and
      c: "files p' (filepath (self p1)) =
          Some (content (files p1) (filepath (self p1)) @ f_buffer p1 @ concat (map the_line ds))"
      by blast+
    have "files p' (filepath (self p)) =
            Some (content (files p1) (filepath (self p)) @ concat (map the_line ds))"
      using c by (simp only: path1 p1(5) append_Nil)
    then show ?thesis by (simp add: b file1)
  qed
  from r e s o f show ?case by blast
qed

lemma randint_range: "a \<le> b \<Longrightarrow> a \<le> randint a b r \<and> randint a b r \<le> b"
proof -
  assume ab: "a \<le> b"
  then have pos: "0 < nat (b - a + 1)" by simp
  have "r mod nat (b - a + 1) < nat (b - a + 1)" using pos by (rule mod_less_divisor)
  then have "int (r mod nat (b - a + 1)) < b - a + 1" using ab by linarith
  then show ?thesis by (simp add: randint_def)
qed

lemma loop_body_effect:
  "(let interval = uniform (min_interval (rate_config (self p)))
                           (max_interval (rate_config (self p))) (r_interval r);
        burst = r_burst r < 0.1;
        burst_size = randint 3 10 (r_burst_size r);
        ds = (if burst then map (r_lines r) [0..<nat burst_size] else [r_lines r 0]);
        written = concat (map (\<lambda>d. [Wrote (the_line d), Flushed]) ds) @
                  (if burst then [Printed (burst_message (file_index (self p)) burst_size)] else [])
    in 3 \<le> burst_size \<and> burst_size \<le> 10 \<and>
       length ds = (if burst then nat burst_size else 1) \<and>
       (0 \<le> r_interval r \<and> r_interval r \<le> 1 \<and>
        min_interval (rate_config (self p)) = Fin a \<and>
        max_interval (rate_config (self p)) = Fin b \<and>
        a \<le> b \<and> \<bar>a\<bar> \<le> FLOAT_MAX \<and> \<bar>b\<bar> \<le> FLOAT_MAX \<and> b - a \<le> FLOAT_MAX \<longrightarrow>
          min_interval (rate_config (self p)) \<le> interval \<and>
          interval \<le> max_interval (rate_config (self p)) \<and>
          interval = Fin (a + (b - a) * r_interval r)) \<and>
       (case sleep_error interval of
          Some e \<Rightarrow> loop_body r p = Inl e
        | None \<Rightarrow>
            (\<exists>p'. loop_body r p = Inr p' \<and>
               events p' = events p @ written @ [Slept interval] \<and>
               self p' = (self p)\<lparr>lines_written := lines_written (self p) + int (length ds)\<rparr> \<and>
               files p' (filepath (self p)) =
                 Some (content (files p) (filepath (self p)) @ f_buffer p @ concat (map the_line ds)) \<and>
               f_buffer p' = [])))"
proof -
  define interval where "interval = uniform (min_interval (rate_config (self p)))
                           (max_interval (rate_config (self p))) (r_interval r)"
  define burst_size where "burst_size = randint 3 10 (r_burst_size r)"
  define ds where "ds = (if r_burst r < 0.1 then map (r_lines r) [0..<nat burst_size] else [r_lines r 0])"
  define written where "written = concat (map (\<lambda>d. [Wrote (the_line d), Flushed]) ds) @
       (if r_burst r < 0.1 then [Printed (burst_message (file_index (self p)) burst_size)] else [])"
  have bs: "3 \<le> burst_size \<and> burst_size \<le> 10"
    unfolding burst_size_def by (rule randint_range) simp
  have len: "length ds = (if r_burst r < 0.1 then nat burst_size else 1)"
    by (simp add: ds_def)
  have ne: "ds \<noteq> []" using bs by (auto simp: ds_def)
  have rng: "0 \<le> r_interval r \<and> r_interval r \<le> 1 \<and>
        min_interval (rate_config (self p)) = Fin a \<and>
        max_interval (rate_config (self p)) = Fin b \<and>
        a \<le> b \<and> \<bar>a\<bar> \<le> FLOAT_MAX \<and> \<bar>b\<bar> \<le> FLOAT_MAX \<and> b - a \<le> FLOAT_MAX \<longrightarrow>
          min_interval (rate_config (self p)) \<le> interval \<and>
          interval \<le> max_interval (rate_config (self p)) \<and>
          interval = Fin (a + (b - a) * r_interval r)"
  proof (intro impI, elim conjE)
    assume h: "0 \<le> r_interval r" "r_interval r \<le> 1"
      "min_interval (rate_config (self p)) = Fin a" "max_interval (rate_config (self p)) = Fin b"
      "a \<le> b" "\<bar>a\<bar> \<le> FLOAT_MAX" "\<bar>b\<bar> \<le> FLOAT_MAX" "b - a \<le> FLOAT_MAX"
    have "\<bar>b - a\<bar> \<le> FLOAT_MAX" using h(5,8) by simp
    then have i: "interval = Fin (a + (b - a) * r_interval r)"
      unfolding interval_def h(3,4) using h(1,2,6,7) by (intro uniform_fin)
    have "a \<le> a + (b - a) * r_interval r \<and> a + (b - a) * r_interval r \<le> b"
      using affine_range[OF h(1,2), of a b] h(5) by simp
    then show "min_interval (rate_config (self p)) \<le> interval \<and>
          interval \<le> max_interval (rate_config (self p)) \<and>
          interval = Fin (a + (b - a) * r_interval r)"
      by (simp add: i h(3,4))
  qed
  obtain q where q: "write_burst ds p = Inr q"
     "events q = events p @ concat (map (\<lambda>d. [Wrote (the_line d), Flushed]) ds)"
     "self q = (self p)\<lparr>lines_written := lines_written (self p) + int (length ds)\<rparr>"
     "f_buffer q = []"
     "files q (filepath (self p)) =
          Some (content (files p) (filepath (self p)) @ f_buffer p @ concat (map the_line ds))"
    using write_burst_effect[of ds p] ne by blast
  have single: "write_burst [d] p = write_one d p" for d
    by (simp split: sum.splits)
  define q' where "q' = (if r_burst r < 0.1
        then print (burst_message (file_index (self q)) burst_size) q else q)"
  have body: "loop_body r p = time_sleep interval q'"
  proof (cases "r_burst r < 0.1")
    case True
    then have "write_burst (map (r_lines r) [0..<nat (randint 3 10 (r_burst_size r))]) p = Inr q"
      using q(1) by (simp add: ds_def burst_size_def)
    then show ?thesis using True
      by (simp add: loop_body_def Let_def interval_def burst_size_def q'_def)
  next
    case False
    then have "write_one (r_lines r 0) p = Inr q"
      using q(1) single[of "r_lines r 0"] by (simp add: ds_def)
    then show ?thesis using False
      by (simp add: loop_body_def Let_def interval_def q'_def)
  qed
  have q': "events q' = events p @ written" "self q' = self q" "files q' = files q"
    "f_buffer q' = f_buffer q"
    using q by (simp_all add: q'_def written_def print_def)
  have "case sleep_error interval of
          Some e \<Rightarrow> loop_body r p = Inl e
        | None \<Rightarrow>
            (\<exists>p'. loop_body r p = Inr p' \<and>
               events p' = events p @ written @ [Slept interval] \<and>
               self p' = (self p)\<lparr>lines_written := lines_written (self p) + int (length ds)\<rparr> \<and>
               files p' (filepath (self p)) =
                 Some (content (files p) (filepath (self p)) @ f_buffer p @ concat (map the_line ds)) \<and>
               f_buffer p' = [])"
    using body q' q by (simp add: time_sleep_def split: option.splits)
  then show ?thesis
    using bs len rng
    unfolding Let_def interval_def[symmetric] burst_size_def[symmetric] ds_def[symmetric]
      written_def[symmetric]
    by blast
qed




lemma sample_single_round:
  "\<exists>p'. loop_body sample_single (sample_proc \<lparr>min_interval = Fin 0.1, max_interval = Fin 0.5\<rparr>) = Inr p' \<and>
     events p' = [Wrote (the_line sample_line), Flushed, Slept (Fin (3/10))]"
proof -
  let ?p = "sample_proc \<lparr>min_interval = Fin 0.1, max_interval = Fin 0.5\<rparr>"
  have i: "uniform (min_interval (rate_config (self ?p))) (max_interval (rate_config (self ?p)))
             (r_interval sample_single) = Fin (3/10)"
  proof -
    have "uniform (Fin 0.1) (Fin 0.5) (1/2) = Fin (0.1 + (0.5 - 0.1) * (1/2))"
      by (rule uniform_small) simp_all
    then show ?thesis by (simp add: sample_single_def sample_proc_def LogGenerator_def)
  qed
  have ok: "sleep_error (Fin (3/10)) = None"
    by (simp add: sleep_error_def SLEEP_LIMIT_def)
  have b: "\<not> r_burst sample_single < 0.1"
    by (simp add: sample_single_def)
  have e: "events ?p = []" by (simp add: sample_proc_def)
  have l: "r_lines sample_single 0 = sample_line" by (simp add: sample_single_def)
  have "\<exists>p'. loop_body sample_single ?p = Inr p' \<and>
          events p' = events ?p @
            (concat (map (\<lambda>d. [Wrote (the_line d), Flushed]) [r_lines sample_single 0]) @ []) @
            [Slept (Fin (3/10))]"
    using loop_body_effect [of ?p sample_single]
    unfolding Let_def i ok using b by auto
  then show ?thesis unfolding e l by simp
qed

lemma step_safe:
  assumes c: "min_interval c = Fin lo" "max_interval c = Fin hi"
      and nn: "0 \<le> min lo hi" and lim: "max lo hi < SLEEP_LIMIT"
      and u: "0 \<le> r_interval (rs (round t))" "r_interval (rs (round t)) \<le> 1"
      and s: "safe c t"
  shows "safe c (step rs t)"
proof (cases "pc t")
  case Opening
  then show ?thesis using s by (simp add: safe_def step_def mid_round_def open_append_def)
next
  case While
  have small: "\<bar>lo\<bar> \<le> 2 ^ 63" "\<bar>hi\<bar> \<le> 2 ^ 63"
    using nn lim sleep_limit_small by (auto simp: abs_le_iff min_def max_def split: if_splits)
  have v: "uniform (Fin lo) (Fin hi) (r_interval (rs (round t))) =
             Fin (lo + (hi - lo) * r_interval (rs (round t)))"
    using u small by (intro uniform_small)
  have "min lo hi \<le> lo + (hi - lo) * r_interval (rs (round t)) \<and>
        lo + (hi - lo) * r_interval (rs (round t)) \<le> max lo hi"
    using affine_range[OF u, of lo hi] .
  then have "sleep_error (uniform (Fin lo) (Fin hi) (r_interval (rs (round t)))) = None"
    unfolding v using nn lim by (auto simp: sleep_error_def)
  then show ?thesis using s While c
    by (auto simp: safe_def step_def mid_round_def f_close_def)
next
  case (Burst j n)
  show ?thesis
  proof (cases "j < n")
    case True
    obtain p' where p': "write_one (r_lines (rs (round t)) j) (st t) = Inr p'"
      using write_one_total by blast
    from write_one_effect[OF p'] show ?thesis using s Burst True p'
      by (auto simp: safe_def mid_round_def step_def)
  next
    case False
    then show ?thesis using s Burst by (simp add: safe_def mid_round_def step_def print_def)
  qed
next
  case Single
  obtain p' where p': "write_one (r_lines (rs (round t)) 0) (st t) = Inr p'"
    using write_one_total by blast
  from write_one_effect[OF p'] show ?thesis using s Single p'
    by (auto simp: safe_def mid_round_def step_def)
next
  case Sleeping
  then show ?thesis using s
    by (auto simp: safe_def mid_round_def step_def time_sleep_def)
next
  case Returned
  then show ?thesis using s by (simp add: safe_def step_def mid_round_def)
next
  case (Raised e)
  then show ?thesis using s by (simp add: safe_def)
qed

lemma steps_safe:
  assumes "min_interval c = Fin lo" "max_interval c = Fin hi"
      and "0 \<le> min lo hi" and "max lo hi < SLEEP_LIMIT"
      and "\<forall>n. 0 \<le> r_interval (rs n) \<and> r_interval (rs n) \<le> 1"
      and "safe c t"
  shows "safe c ((step rs ^^ k) t)"
proof (induction k)
  case 0
  show ?case using assms(6) by simp
next
  case (Suc k)
  have "safe c (step rs ((step rs ^^ k) t))"
    using assms(1-4) _ _ Suc.IH by (rule step_safe) (simp_all add: assms(5))
  then show ?case by simp
qed

lemma start_safe: "safe (rate_config g) (start g fs)"
  by (simp add: safe_def start_def mid_round_def)

lemma safe_step_not_raised:
  assumes "safe c t" "\<not> running (self (st t))"
  shows "safe c (step rs t)"
proof (cases "pc t")
  case Opening
  then show ?thesis using assms by (simp add: safe_def step_def mid_round_def open_append_def)
next
  case While
  then show ?thesis using assms by (simp add: safe_def step_def mid_round_def f_close_def)
next
  case (Burst j n)
  show ?thesis
  proof (cases "j < n")
    case True
    obtain p' where p': "write_one (r_lines (rs (round t)) j) (st t) = Inr p'"
      using write_one_total by blast
    from write_one_effect[OF p'] show ?thesis using assms Burst True p'
      by (auto simp: safe_def mid_round_def step_def)
  next
    case False
    then show ?thesis using assms Burst by (simp add: safe_def mid_round_def step_def print_def)
  qed
next
  case Single
  obtain p' where p': "write_one (r_lines (rs (round t)) 0) (st t) = Inr p'"
    using write_one_total by blast
  from write_one_effect[OF p'] show ?thesis using assms Single p'
    by (auto simp: safe_def mid_round_def step_def)
next
  case Sleeping
  then show ?thesis using assms
    by (auto simp: safe_def mid_round_def step_def time_sleep_def)
next
  case Returned
  then show ?thesis using assms by (simp add: safe_def step_def mid_round_def)
next
  case (Raised e)
  then show ?thesis using assms by (simp add: safe_def)
qed

lemma write_header_result:
  "write_header now float_str cfg path fs = fs(path \<mapsto> header_text now float_str cfg)"
  by (simp add: write_header_def header_text_def Let_def open_truncate_def append_to_def content_def)

lemma count_lines_append: "count_lines (xs @ ys) = count_lines xs + count_lines ys"
  by (simp add: count_lines_def)

lemma count_lines_free: "CHR 0x0A \<notin> set xs \<Longrightarrow> count_lines xs = 0"
  by (induction xs) (auto simp: count_lines_def)

lemma header_three_lines:
  assumes "CHR 0x0A \<notin> set now" "CHR 0x0A \<notin> set (float_str (min_interval cfg))"
    "CHR 0x0A \<notin> set (float_str (max_interval cfg))"
  shows "count_lines (header_text now float_str cfg) = 3"
proof -
  have a: "count_lines ''# Log file generated at '' = 0" "count_lines ''# Rate: '' = 0"
    "count_lines ''-'' = 0" "count_lines ''s'' = 0"
    "count_lines ''# ============================================'' = 0"
    "count_lines [CHR 0x0A] = 1"
    by (simp_all add: count_lines_def)
  show ?thesis
    unfolding header_text_def count_lines_append a
    using assms by (simp add: count_lines_free)
qed

lemma the_line_nonempty: "the_line d \<noteq> []"
proof -
  obtain m where "format (choice MESSAGE_TEMPLATES (r_template d)) (map_of (kwargs d)) = Inr m"
    using message_total by blast
  then show ?thesis
    by (simp add: the_line_def generate_log_line_def Let_def render_line_def)
qed

lemma step_content:
  "filepath (self (st (step rs t))) = filepath (self (st t)) \<and>
   (\<exists>extra. content (files (st (step rs t))) (filepath (self (st t))) =
             content (files (st t)) (filepath (self (st t))) @ extra)"
proof (cases "pc t")
  case Opening
  then show ?thesis by (simp add: step_def open_append_def content_def)
next
  case While
  then show ?thesis by (simp add: step_def f_close_def content_def)
next
  case (Burst j n)
  show ?thesis
  proof (cases "j < n")
    case True
    obtain p' where p': "write_one (r_lines (rs (round t)) j) (st t) = Inr p'"
      using write_one_total by blast
    from write_one_effect[OF p'] show ?thesis using Burst True p'
      by (auto simp: step_def content_def)
  next
    case False
    then show ?thesis using Burst by (simp add: step_def print_def)
  qed
next
  case Single
  obtain p' where p': "write_one (r_lines (rs (round t)) 0) (st t) = Inr p'"
    using write_one_total by blast
  from write_one_effect[OF p'] show ?thesis using Single p'
    by (auto simp: step_def content_def)
next
  case Sleeping
  then show ?thesis
    by (auto simp: step_def time_sleep_def f_close_def content_def split: option.splits)
next
  case Returned
  then show ?thesis by (simp add: step_def)
next
  case (Raised e)
  then show ?thesis by (simp add: step_def)
qed

lemma steps_content:
  "filepath (self (st ((step rs ^^ k) t))) = filepath (self (st t)) \<and>
   (\<exists>extra. content (files (st ((step rs ^^ k) t))) (filepath (self (st t))) =
             content (files (st t)) (filepath (self (st t))) @ extra)"
proof (induction k)
  case 0
  show ?case by simp
next
  case (Suc k)
  let ?u = "(step rs ^^ k) t"
  from Suc.IH obtain e1 where
    p: "filepath (self (st ?u)) = filepath (self (st t))" and
    c: "content (files (st ?u)) (filepath (self (st t))) =
          content (files (st t)) (filepath (self (st t))) @ e1" by blast
  from step_content[of rs ?u] obtain e2 where
    p2: "filepath (self (st (step rs ?u))) = filepath (self (st ?u))" and
    c2: "content (files (st (step rs ?u))) (filepath (self (st ?u))) =
          content (files (st ?u)) (filepath (self (st ?u))) @ e2" by blast
  have "content (files (st (step rs ?u))) (filepath (self (st t))) =
          content (files (st t)) (filepath (self (st t))) @ (e1 @ e2)"
    using c c2 p by simp
  then show ?case using p p2 by auto
qed

lemma loop_body_grows:
  assumes "loop_body r p = Inr p'"
  shows "length (content (files p) (filepath (self p))) <
         length (content (files p') (filepath (self p)))"
proof -
  define ds where "ds = (if r_burst r < 0.1 then map (r_lines r) [0..<nat (randint 3 10 (r_burst_size r))]
                         else [r_lines r 0])"
  have "3 \<le> randint 3 10 (r_burst_size r)" using randint_range[of 3 10] by simp
  then have ne: "ds \<noteq> []" by (auto simp: ds_def)
  note sleep = loop_body_effect[where p = p and r = r, unfolded Let_def,
      THEN conjunct2, THEN conjunct2, THEN conjunct2, THEN conjunct2]
  have "files p' (filepath (self p)) =
          Some (content (files p) (filepath (self p)) @ f_buffer p @ concat (map the_line ds))"
    using sleep assms unfolding ds_def[symmetric]
    by (auto split: option.splits)
  moreover have "concat (map the_line ds) \<noteq> []"
    using ne the_line_nonempty by (cases ds) auto
  ultimately show ?thesis by (simp add: content_def)
qed


text \<open>The two descriptions of the writer agree: the steps of one round of the thread
  compute what \<open>loop_body\<close> computes.\<close>

lemma burst_steps:
  assumes "pc u = Burst j n" "j \<le> n"
  shows "\<exists>q. write_burst (map (r_lines (rs (round u))) [j..<n]) (st u) = Inr q \<and>
             (step rs ^^ (n - j)) u = u\<lparr>st := q, pc := Burst n n\<rparr>"
  using assms
proof (induction "n - j" arbitrary: j u)
  case 0
  then have "j = n" by simp
  then show ?case using "0.prems"(1) by simp
next
  case (Suc d)
  then have lt: "j < n" by simp
  obtain p' where p': "write_one (r_lines (rs (round u)) j) (st u) = Inr p'"
    using write_one_total by blast
  define u1 where "u1 = u\<lparr>st := p', pc := Burst (Suc j) n\<rparr>"
  have s: "step rs u = u1" using Suc.prems(1) lt p' by (simp add: step_def u1_def)
  have u1: "pc u1 = Burst (Suc j) n" "round u1 = round u" "st u1 = p'" by (simp_all add: u1_def)
  have d: "d = n - Suc j" using Suc.hyps(2) by simp
  from Suc.hyps(1)[OF d u1(1)] lt obtain q where
    q: "write_burst (map (r_lines (rs (round u1))) [Suc j..<n]) (st u1) = Inr q"
       "(step rs ^^ (n - Suc j)) u1 = u1\<lparr>st := q, pc := Burst n n\<rparr>"
    by auto
  have "write_burst (map (r_lines (rs (round u))) [j..<n]) (st u) = Inr q"
    using q(1) p' lt by (simp add: upt_conv_Cons u1)
  moreover have "(step rs ^^ (n - j)) u = u\<lparr>st := q, pc := Burst n n\<rparr>"
  proof -
    have "n - j = Suc (n - Suc j)" using lt by simp
    then have "(step rs ^^ (n - j)) u = (step rs ^^ (n - Suc j)) (step rs u)"
      by (simp add: funpow_swap1)
    also have "\<dots> = u1\<lparr>st := q, pc := Burst n n\<rparr>" using s q(2) by simp
    also have "\<dots> = u\<lparr>st := q, pc := Burst n n\<rparr>" by (simp add: u1_def)
    finally show ?thesis .
  qed
  ultimately show ?case by blast
qed


lemma round_of_steps:
  assumes w: "pc t = While" and run: "running (self (st t))"
  shows "\<exists>k. case loop_body (rs (round t)) (st t) of
               Inl e \<Rightarrow> pc ((step rs ^^ k) t) = Raised e
             | Inr p' \<Rightarrow>
                 (step rs ^^ k) t =
                   t\<lparr>st := p', pc := While,
                     interval := uniform (min_interval (rate_config (self (st t))))
                                   (max_interval (rate_config (self (st t))))
                                   (r_interval (rs (round t))),
                     round := Suc (round t)\<rparr>"
proof -
  define r where "r = rs (round t)"
  define I where "I = uniform (min_interval (rate_config (self (st t))))
                        (max_interval (rate_config (self (st t)))) (r_interval r)"
  define bs where "bs = randint 3 10 (r_burst_size r)"
  have bs3: "3 \<le> bs" unfolding bs_def using randint_range[of 3 10] by simp
  show ?thesis
  proof (cases "r_burst r < 0.1")
    case True
    define t1 where "t1 = t\<lparr>interval := I, pc := Burst 0 (nat bs)\<rparr>"
    have s1: "step rs t = t1"
      using w run True by (simp add: step_def t1_def I_def r_def bs_def)
    have t1: "pc t1 = Burst 0 (nat bs)" "round t1 = round t" "st t1 = st t" "interval t1 = I"
      by (simp_all add: t1_def)
    from burst_steps[OF t1(1), of rs] obtain q where
      q: "write_burst (map (r_lines r) [0..<nat bs]) (st t) = Inr q"
         "(step rs ^^ nat bs) t1 = t1\<lparr>st := q, pc := Burst (nat bs) (nat bs)\<rparr>"
      by (auto simp: t1 r_def)
    define t2 where "t2 = t1\<lparr>st := q, pc := Burst (nat bs) (nat bs)\<rparr>"
    define q' where "q' = print (burst_message (file_index (self q)) bs) q"
    define t3 where "t3 = t2\<lparr>st := q', pc := Sleeping\<rparr>"
    have s3: "step rs t2 = t3"
      using bs3 by (simp add: step_def t2_def t3_def q'_def)
    have body: "loop_body r (st t) = time_sleep I q'"
      using True q(1) by (simp add: loop_body_def Let_def I_def bs_def q'_def)
    have k: "(step rs ^^ Suc (Suc (Suc (nat bs)))) t = step rs t3"
    proof -
      have "(step rs ^^ Suc (nat bs)) t = (step rs ^^ nat bs) (step rs t)"
        by (simp add: funpow_swap1)
      then have "(step rs ^^ Suc (nat bs)) t = t2" using s1 q(2) by (simp add: t2_def)
      then show ?thesis using s3 by simp
    qed
    have last: "case time_sleep I q' of
                  Inl e \<Rightarrow> pc (step rs t3) = Raised e
                | Inr p' \<Rightarrow> step rs t3 = t\<lparr>st := p', pc := While, interval := I,
                                             round := Suc (round t)\<rparr>"
      by (simp add: step_def t3_def t2_def t1_def time_sleep_def split: option.splits)
    show ?thesis
      apply (rule exI[of _ "Suc (Suc (Suc (nat bs)))"])
      using last unfolding k body r_def[symmetric] I_def[symmetric] .
  next
    case False
    define t1 where "t1 = t\<lparr>interval := I, pc := Single\<rparr>"
    have s1: "step rs t = t1"
      using w run False by (simp add: step_def t1_def I_def r_def)
    obtain q where q: "write_one (r_lines r 0) (st t) = Inr q"
      using write_one_total by blast
    define t3 where "t3 = t1\<lparr>st := q, pc := Sleeping\<rparr>"
    have s3: "step rs t1 = t3"
      using q by (simp add: step_def t1_def t3_def r_def)
    have body: "loop_body r (st t) = time_sleep I q"
      using False q by (simp add: loop_body_def Let_def I_def)
    have k: "(step rs ^^ Suc (Suc (Suc 0))) t = step rs t3"
      using s1 s3 by simp
    have last: "case time_sleep I q of
                  Inl e \<Rightarrow> pc (step rs t3) = Raised e
                | Inr p' \<Rightarrow> step rs t3 = t\<lparr>st := p', pc := While, interval := I,
                                             round := Suc (round t)\<rparr>"
      by (simp add: step_def t3_def t1_def time_sleep_def split: option.splits)
    show ?thesis
      apply (rule exI[of _ "Suc (Suc (Suc 0))"])
      using last unfolding k body r_def[symmetric] I_def[symmetric] .
  qed
qed

section \<open>Facts about the created files\<close>

lemma digit_val_digit: "d < 10 \<Longrightarrow> digit_val (''0123456789'' ! d) = d"
proof -
  assume "d < 10"
  then have "d = 0 \<or> d = 1 \<or> d = 2 \<or> d = 3 \<or> d = 4 \<or> d = 5 \<or> d = 6 \<or> d = 7 \<or> d = 8 \<or> d = 9"
    by presburger
  then show ?thesis by (elim disjE) (simp_all add: digit_val_def)
qed

lemma read_show_nat: "read_nat (show_nat n) = n"
proof (induction n rule: show_nat.induct)
  case (1 n)
  show ?case
  proof (cases "n < 10")
    case True
    then show ?thesis by (subst show_nat.simps) (simp add: read_nat_def digit_val_digit)
  next
    case False
    have "read_nat (show_nat (n div 10)) = n div 10" using 1 False by simp
    then have "read_nat (show_nat (n div 10) @ [''0123456789'' ! (n mod 10)]) = n"
      by (simp add: read_nat_def digit_val_digit)
    then show ?thesis using False by (subst show_nat.simps) simp
  qed
qed

lemma show_nat_inj: "show_nat a = show_nat b \<Longrightarrow> a = b"
  by (metis read_show_nat)

lemma log_name_inj:
  "log_name dir prefix (int i) = log_name dir prefix (int j) \<Longrightarrow> i = j"
proof -
  assume "log_name dir prefix (int i) = log_name dir prefix (int j)"
  then have "str_int (int i + 1) = str_int (int j + 1)" by (simp add: log_name_def)
  then have "show_nat (Suc i) = show_nat (Suc j)" by (simp add: str_int_def nat_add_distrib)
  then show ?thesis using show_nat_inj by blast
qed

lemma create_log_files_generators:
  "snd (create_log_files a cfg clock float_str idx (fs, gens)) =
     gens @ map (\<lambda>i. LogGenerator (log_name (a_dir a) (a_prefix a) (int i)) cfg (int i + 1)) idx"
  by (induction idx arbitrary: fs gens) (simp_all add: Let_def)

lemma create_log_files_other:
  "(\<forall>i \<in> set idx. log_name (a_dir a) (a_prefix a) (int i) \<noteq> k) \<Longrightarrow>
   fst (create_log_files a cfg clock float_str idx (fs, gens)) k = fs k"
  by (induction idx arbitrary: fs gens) (auto simp: Let_def write_header_result)

lemma create_log_files_header:
  "distinct (map (\<lambda>i. log_name (a_dir a) (a_prefix a) (int i)) idx) \<Longrightarrow> i \<in> set idx \<Longrightarrow>
   fst (create_log_files a cfg clock float_str idx (fs, gens)) (log_name (a_dir a) (a_prefix a) (int i))
     = Some (header_text (clock i) float_str cfg)"
proof (induction idx arbitrary: fs gens)
  case Nil
  then show ?case by simp
next
  case (Cons j rest)
  show ?case
  proof (cases "i = j")
    case True
    have "\<forall>x \<in> set rest. log_name (a_dir a) (a_prefix a) (int x) \<noteq>
            log_name (a_dir a) (a_prefix a) (int j)"
      using Cons.prems(1) by (auto simp: image_iff)
    then show ?thesis
      using True by (simp add: Let_def create_log_files_other write_header_result)
  next
    case False
    then have "i \<in> set rest" using Cons.prems(2) by simp
    moreover have "distinct (map (\<lambda>i. log_name (a_dir a) (a_prefix a) (int i)) rest)"
      using Cons.prems(1) by simp
    ultimately show ?thesis using Cons.IH by (simp add: Let_def)
  qed
qed

lemma main_setup_files:
  assumes "main_setup a clock float_str fs = Inr (fs', gens)"
  shows "\<exists>cfg. resolve_rate a = Inr cfg \<and>
           gens = map (\<lambda>i. LogGenerator (log_name (a_dir a) (a_prefix a) (int i)) cfg (int i + 1))
                    [0..<nat (a_files a)] \<and>
           (\<forall>i < nat (a_files a).
              fs' (log_name (a_dir a) (a_prefix a) (int i)) = Some (header_text (clock i) float_str cfg))"
proof -
  obtain cfg where cfg: "resolve_rate a = Inr cfg"
    using assms by (auto simp: main_setup_def split: sum.splits)
  let ?f = "\<lambda>i. log_name (a_dir a) (a_prefix a) (int i)"
  let ?run = "create_log_files a cfg clock float_str [0..<nat (a_files a)] (fs, [])"
  have r: "?run = (fs', gens)"
    using assms cfg by (simp add: main_setup_def)
  have g: "gens = map (\<lambda>i. LogGenerator (?f i) cfg (int i + 1)) [0..<nat (a_files a)]"
    using create_log_files_generators[of a cfg clock float_str "[0..<nat (a_files a)]" fs "[]"]
    unfolding r by simp
  have d: "distinct (map ?f [0..<nat (a_files a)])"
    by (simp add: distinct_map inj_on_def) (blast dest: log_name_inj)
  have "fs' (?f i) = Some (header_text (clock i) float_str cfg)" if lt: "i < nat (a_files a)" for i
  proof -
    have "i \<in> set [0..<nat (a_files a)]" using lt by simp
    from create_log_files_header[OF d this, of cfg clock float_str fs "[]"]
    show ?thesis unfolding r by simp
  qed
  with cfg g show ?thesis by blast
qed

section \<open>Facts about the layout\<close>

lemma generate_group_shape:
  "g_name (fst (generate_group NESTED clock (int i) k c fs)) = group_names ! (i mod 8) \<and>
   g_icon (fst (generate_group NESTED clock (int i) k c fs)) = icons ! (i mod 8) \<and>
   g_collapsed (fst (generate_group NESTED clock (int i) k c fs)) =
     (if 1 < i then ''true'' else ''false'') \<and>
   (if NESTED \<and> i = 0
    then (\<exists>core background.
            g_body (fst (generate_group NESTED clock (int i) k c fs)) = Nested core background \<and>
            length core = nat (k div 2) \<and> length background = nat (k - k div 2))
    else (\<exists>nums. g_body (fst (generate_group NESTED clock (int i) k c fs)) = Flat nums \<and>
            length nums = nat k))"
proof -
  have m: "nat (int i mod 8) = i mod 8" by (simp add: nat_mod_distrib)
  show ?thesis
    by (simp add: generate_group_def Let_def group_names_def icons_def m)
qed

lemma generate_group_ok:
  "group_ok NESTED q r i
     (fst (generate_group NESTED clock (int i) (q + (if int i < r then 1 else 0)) c fs))"
  unfolding group_ok_def Let_def by (rule generate_group_shape)

lemma group_loop_ok:
  "list_all2 (group_ok NESTED q r) idx (fst (group_loop NESTED clock q r idx c fs))"
proof (induction idx arbitrary: c fs)
  case Nil
  show ?case by simp
next
  case (Cons i rest)
  define k where "k = q + (if int i < r then 1 else 0)"
  obtain g fs1 where g: "generate_group NESTED clock (int i) k c fs = (g, fs1)"
    by (cases "generate_group NESTED clock (int i) k c fs") blast
  obtain gs fs2 where gs: "group_loop NESTED clock q r rest (c + k) fs1 = (gs, fs2)"
    by (cases "group_loop NESTED clock q r rest (c + k) fs1") blast
  have "group_loop NESTED clock q r (i # rest) c fs = (g # gs, fs2)"
    using g gs by (simp add: Let_def k_def)
  moreover have "group_ok NESTED q r i g"
    using generate_group_ok[of NESTED q r i clock c fs] g by (simp add: k_def)
  moreover have "list_all2 (group_ok NESTED q r) rest gs"
    using Cons.IH[of "c + k" fs1] gs by simp
  ultimately show ?case by simp
qed


lemma build_layout_returns:
  assumes "NUM_GROUPS \<noteq> 0"
  shows "build_layout NUM_FILES NUM_GROUPS NESTED cwd clock fs =
           Inr (fst (group_loop NESTED clock (NUM_FILES div NUM_GROUPS) (NUM_FILES mod NUM_GROUPS)
                       [0..<nat NUM_GROUPS] 1 fs),
                (snd (group_loop NESTED clock (NUM_FILES div NUM_GROUPS) (NUM_FILES mod NUM_GROUPS)
                       [0..<nat NUM_GROUPS] 1 fs))
                  (LAYOUT_FILE \<mapsto> yaml_head NUM_GROUPS NUM_FILES @
                     concat (map (render_group ''  '' cwd)
                       (fst (group_loop NESTED clock (NUM_FILES div NUM_GROUPS)
                          (NUM_FILES mod NUM_GROUPS) [0..<nat NUM_GROUPS] 1 fs)))))"
  using assms by (simp add: build_layout_def Let_def split: prod.splits)

lemma build_layout_groups:
  assumes "build_layout NUM_FILES NUM_GROUPS NESTED cwd clock fs = Inr (gs, fs')"
  shows "list_all2 (group_ok NESTED (NUM_FILES div NUM_GROUPS) (NUM_FILES mod NUM_GROUPS))
           [0..<nat NUM_GROUPS] gs"
proof -
  have nz: "NUM_GROUPS \<noteq> 0" using assms by (auto simp: build_layout_def)
  have "gs = fst (group_loop NESTED clock (NUM_FILES div NUM_GROUPS) (NUM_FILES mod NUM_GROUPS)
                       [0..<nat NUM_GROUPS] 1 fs)"
    using assms unfolding build_layout_returns[OF nz] by simp
  then show ?thesis by (simp only: group_loop_ok)
qed

lemma group_ok_size:
  assumes "group_ok NESTED q r i g"
  shows "group_size g = nat (q + (if int i < r then 1 else 0))"
proof -
  define k where "k = q + (if int i < r then 1 else 0)"
  have split: "nat (k div 2) + nat (k - k div 2) = nat k" by linarith
  show ?thesis
  proof (cases "NESTED \<and> i = 0")
    case True
    then obtain core background where "g_body g = Nested core background"
      "length core = nat (k div 2)" "length background = nat (k - k div 2)"
      using assms unfolding group_ok_def Let_def k_def by auto
    then show ?thesis using split by (simp add: group_size_def k_def)
  next
    case False
    then obtain nums where "g_body g = Flat nums" "length nums = nat k"
      using assms unfolding group_ok_def Let_def k_def by auto
    then show ?thesis by (simp add: group_size_def k_def)
  qed
qed

lemma generate_group_no_files:
  assumes "k \<le> 0"
  shows "snd (generate_group NESTED clock i k c fs) = fs"
proof -
  have a: "[0..k - 1] = []" using assms by simp
  have "k div 2 \<le> 0" "k - 1 < k div 2" using assms by linarith+
  then have b: "[0..k div 2 - 1] = []" "[k div 2..k - 1] = []" by simp_all
  show ?thesis by (simp add: generate_group_def Let_def a b)
qed

lemma group_loop_no_files:
  assumes "\<forall>i \<in> set idx. q + (if int i < r then 1 else 0) \<le> 0"
  shows "snd (group_loop NESTED clock q r idx c fs) = fs"
  using assms
proof (induction idx arbitrary: c fs)
  case Nil
  show ?case by simp
next
  case (Cons i rest)
  define k where "k = q + (if int i < r then 1 else 0)"
  have k0: "k \<le> 0" using Cons.prems by (simp add: k_def)
  obtain g fs1 where g: "generate_group NESTED clock (int i) k c fs = (g, fs1)"
    by (cases "generate_group NESTED clock (int i) k c fs") blast
  have fs1: "fs1 = fs" using generate_group_no_files[OF k0, of NESTED clock "int i" c fs] g by simp
  obtain gs fs2 where gs: "group_loop NESTED clock q r rest (c + k) fs1 = (gs, fs2)"
    by (cases "group_loop NESTED clock q r rest (c + k) fs1") blast
  have "fs2 = fs1" using Cons.IH[of "c + k" fs1] Cons.prems gs by simp
  moreover have "group_loop NESTED clock q r (i # rest) c fs = (g # gs, fs2)"
    using g gs by (simp add: Let_def k_def)
  ultimately show ?case using fs1 by simp
qed

lemma nonpositive_share:
  assumes "NUM_FILES \<le> 0" "0 < NUM_GROUPS"
  shows "NUM_FILES div NUM_GROUPS + (if int i < NUM_FILES mod NUM_GROUPS then 1 else 0) \<le> (0::int)"
proof (cases "NUM_FILES = 0")
  case True
  then show ?thesis by simp
next
  case False
  then have "NUM_FILES < 0" using assms(1) by simp
  then have "NUM_FILES div NUM_GROUPS < 0" using assms(2) by (simp add: pos_imp_zdiv_neg_iff)
  then show ?thesis by simp
qed


lemma map_add_upto: "map (\<lambda>j. c + j) [a..b] = [c + a..c + b]"
proof (induction a b rule: upto.induct)
  case (1 a b)
  show ?case
  proof (cases "a \<le> b")
    case True
    then have "[a..b] = a # [a + 1..b]" "[c + a..c + b] = (c + a) # [c + a + 1..c + b]"
      by (simp_all add: upto_rec1)
    then show ?thesis using 1 True by (simp add: add.assoc)
  next
    case False
    then show ?thesis by simp
  qed
qed

lemma upto_append: "i \<le> j \<Longrightarrow> j \<le> k + 1 \<Longrightarrow> [i..k] = [i..j - 1] @ [j..k]"
proof (cases "j \<le> k")
  case True
  assume "i \<le> j"
  then show ?thesis using True by (rule upto_split1)
next
  case False
  assume "i \<le> j" "j \<le> k + 1"
  then have "j = k + 1" using False by simp
  then show ?thesis by simp
qed

lemma generate_group_files:
  "group_files (g_body (fst (generate_group NESTED clock i k c fs))) = [c..c + k - 1]"
proof (cases "0 \<le> k")
  case True
  have h: "0 \<le> k div 2" "k div 2 \<le> k" using True by linarith+
  have "[0..k - 1] = [0..k div 2 - 1] @ [k div 2..k - 1]"
    using h by (intro upto_append) simp_all
  then have "map (\<lambda>j. c + j) [0..k div 2 - 1] @ map (\<lambda>j. c + j) [k div 2..k - 1] = [c..c + k - 1]"
    using map_add_upto[of c 0 "k - 1"] by (simp add: algebra_simps)
  moreover have "map (\<lambda>j. c + j) [0..k - 1] = [c..c + k - 1]"
    using map_add_upto[of c 0 "k - 1"] by (simp add: algebra_simps)
  ultimately show ?thesis by (simp add: generate_group_def Let_def)
next
  case False
  then have a: "[0..k - 1] = []" by simp
  have "k div 2 \<le> 0" "k - 1 < k div 2" using False by linarith+
  then have b: "[0..k div 2 - 1] = []" "[k div 2..k - 1] = []" by simp_all
  show ?thesis using False by (simp add: generate_group_def Let_def a b)
qed

lemma group_loop_files:
  assumes "0 \<le> q"
  shows "concat (map (\<lambda>g. group_files (g_body g)) (fst (group_loop NESTED clock q r idx c fs))) =
           [c..c + sum_list (map (\<lambda>i. q + (if int i < r then 1 else 0)) idx) - 1]"
proof (induction idx arbitrary: c fs)
  case Nil
  show ?case by simp
next
  case (Cons i rest)
  define k where "k = q + (if int i < r then 1 else 0)"
  define S where "S = sum_list (map (\<lambda>i. q + (if int i < r then 1 else 0)) rest)"
  have k0: "0 \<le> k" using assms by (simp add: k_def)
  have S0: "0 \<le> S" unfolding S_def using assms by (intro sum_list_nonneg) auto
  obtain g fs1 where g: "generate_group NESTED clock (int i) k c fs = (g, fs1)"
    by (cases "generate_group NESTED clock (int i) k c fs") blast
  obtain gs fs2 where gs: "group_loop NESTED clock q r rest (c + k) fs1 = (gs, fs2)"
    by (cases "group_loop NESTED clock q r rest (c + k) fs1") blast
  have l: "group_loop NESTED clock q r (i # rest) c fs = (g # gs, fs2)"
    using g gs by (simp add: Let_def k_def)
  have gf: "group_files (g_body g) = [c..c + k - 1]"
    using generate_group_files[of NESTED clock "int i" k c fs] g by simp
  have rf: "concat (map (\<lambda>g. group_files (g_body g)) gs) = [c + k..c + k + S - 1]"
    using Cons.IH[of "c + k" fs1] gs by (simp add: S_def)
  have split: "[c..c + k + S - 1] = [c..c + k - 1] @ [c + k..c + k + S - 1]"
    using k0 S0 by (intro upto_append) simp_all
  have total: "sum_list (map (\<lambda>i. q + (if int i < r then 1 else 0)) (i # rest)) = k + S"
    by (simp only: list.map sum_list.Cons k_def S_def)
  have "concat (map (\<lambda>g. group_files (g_body g)) (g # gs)) = [c..c + k + S - 1]"
    by (simp only: list.map concat.simps gf rf split)
  moreover have "c + (k + S) - 1 = c + k + S - 1" by simp
  ultimately show ?case by (simp only: l fst_conv total)
qed

lemma share_sum:
  assumes "0 \<le> r"
  shows "sum_list (map (\<lambda>i. q + (if int i < r then 1 else 0)) [0..<n]) = q * int n + min r (int n)"
proof (induction n)
  case 0
  show ?case using assms by simp
next
  case (Suc n)
  show ?case using Suc assms by (simp add: algebra_simps min_def)
qed

lemma build_layout_numbering:
  assumes "build_layout NUM_FILES NUM_GROUPS NESTED cwd clock fs = Inr (gs, fs')"
      and "0 \<le> NUM_FILES" and "0 < NUM_GROUPS"
  shows "concat (map (\<lambda>g. group_files (g_body g)) gs) = [1..NUM_FILES]"
proof -
  let ?q = "NUM_FILES div NUM_GROUPS" and ?r = "NUM_FILES mod NUM_GROUPS"
  have nz: "NUM_GROUPS \<noteq> 0" using assms(3) by simp
  have gs: "gs = fst (group_loop NESTED clock ?q ?r [0..<nat NUM_GROUPS] 1 fs)"
    using assms(1) unfolding build_layout_returns[OF nz] by simp
  have q0: "0 \<le> ?q" using assms(2,3) by (simp add: pos_imp_zdiv_nonneg_iff)
  have r0: "0 \<le> ?r" "?r < NUM_GROUPS" using assms(3) by simp_all
  have "sum_list (map (\<lambda>i. ?q + (if int i < ?r then 1 else 0)) [0..<nat NUM_GROUPS]) =
          ?q * int (nat NUM_GROUPS) + min ?r (int (nat NUM_GROUPS))"
    by (rule share_sum[OF r0(1)])
  also have "\<dots> = ?q * NUM_GROUPS + ?r" using assms(3) r0 by simp
  also have "\<dots> = NUM_FILES" by (simp add: mult.commute)
  finally have total: "sum_list (map (\<lambda>i. ?q + (if int i < ?r then 1 else 0)) [0..<nat NUM_GROUPS]) =
          NUM_FILES" .
  show ?thesis unfolding gs group_loop_files[OF q0] total by simp
qed

section \<open>More facts about a stopped thread\<close>

text \<open>A thread whose flag is down and whose pending sleep can be slept ends by
  leaving the loop, not by an exception.\<close>

lemma join_stopped_safe:
  "\<not> running (self (st t)) \<Longrightarrow> safe c t \<Longrightarrow> \<exists>t'. join rs t = Some t' \<and> pc t' = Returned"
proof (induction "steps_left t" arbitrary: t rule: less_induct)
  case less
  show ?case
  proof (cases "finished t")
    case True
    then have "join rs t = Some t" by (simp add: join.simps)
    moreover have "pc t = Returned"
      using True less.prems(2) by (auto simp: finished_def safe_def split: pc.splits)
    ultimately show ?thesis by blast
  next
    case False
    let ?u = "step rs t"
    note s = step_stopped[OF less.prems(1) False, of rs]
    from s have lt: "steps_left ?u < steps_left t" and nr: "\<not> running (self (st ?u))" by auto
    have su: "safe c ?u" using less.prems(2,1) by (rule safe_step_not_raised)
    from less.hyps[OF lt nr su] obtain t' where "join rs ?u = Some t'" "pc t' = Returned"
      by blast
    moreover have "join rs t = join rs ?u" using False by (subst join.simps) simp
    ultimately show ?thesis by simp
  qed
qed

lemma step_thread: "thread (self (st (step rs t))) = thread (self (st t))"
proof (cases "pc t")
  case Opening
  then show ?thesis by (simp add: step_def open_append_def)
next
  case While
  then show ?thesis by (simp add: step_def f_close_def)
next
  case (Burst j n)
  obtain p' where p': "write_one (r_lines (rs (round t)) j) (st t) = Inr p'"
    using write_one_total by blast
  from write_one_effect[OF p'] show ?thesis using Burst p'
    by (auto simp: step_def print_def)
next
  case Single
  obtain p' where p': "write_one (r_lines (rs (round t)) 0) (st t) = Inr p'"
    using write_one_total by blast
  from write_one_effect[OF p'] show ?thesis using Single p'
    by (auto simp: step_def)
next
  case Sleeping
  then show ?thesis
    by (auto simp: step_def time_sleep_def f_close_def split: option.splits)
next
  case Returned
  then show ?thesis by (simp add: step_def)
next
  case (Raised e)
  then show ?thesis by (simp add: step_def)
qed

lemma steps_thread: "thread (self (st ((step rs ^^ k) t))) = thread (self (st t))"
  by (induction k) (simp_all add: step_thread)

section \<open>Facts about an inverted policy\<close>





text \<open>
  What fails is the bound, in either order: a negative bound makes \<open>time.sleep\<close> raise
  \<open>ValueError\<close>, a bound beyond its range \<open>OverflowError\<close>, and an infinite bound gives
  an interval that is not a number.
\<close>

lemma loop_body_sleep_fails:
  assumes "rate_config (self p) = \<lparr>min_interval = a, max_interval = b\<rparr>"
      and "sleep_error (uniform a b (r_interval r)) = Some e"
  shows "loop_body r p = Inl e"
proof -
  note sleep = loop_body_effect[where p = p and r = r, unfolded Let_def,
      THEN conjunct2, THEN conjunct2, THEN conjunct2, THEN conjunct2]
  have i: "uniform (min_interval (rate_config (self p))) (max_interval (rate_config (self p)))
             (r_interval r) = uniform a b (r_interval r)"
    by (simp add: assms(1))
  show ?thesis using sleep unfolding i assms(2) by simp
qed

lemma sample_uniform:
  assumes "\<bar>a\<bar> \<le> 2 ^ 63" "\<bar>b\<bar> \<le> 2 ^ 63"
  shows "uniform (Fin a) (Fin b) (r_interval sample_single) = Fin ((a + b) / 2)"
proof -
  have "uniform (Fin a) (Fin b) (r_interval sample_single) =
          Fin (a + (b - a) * r_interval sample_single)"
    using assms by (intro uniform_small) (simp_all add: sample_single_def)
  moreover have "a + (b - a) * r_interval sample_single = (a + b) / 2"
    by (simp add: sample_single_def field_simps)
  ultimately show ?thesis by simp
qed

lemma sample_proc_config: "rate_config (self (sample_proc c)) = \<lparr>min_interval = min_interval c, max_interval = max_interval c\<rparr>"
  by (simp add: sample_proc_def LogGenerator_def)

lemma negative_bound_fails_either_order:
  "loop_body sample_single (sample_proc \<lparr>min_interval = Fin 0, max_interval = Fin (- 1)\<rparr>) = Inl ValueError \<and>
   loop_body sample_single (sample_proc \<lparr>min_interval = Fin (- 1), max_interval = Fin 0\<rparr>) = Inl ValueError"
proof -
  have u1: "uniform (Fin 0) (Fin (- 1)) (r_interval sample_single) = Fin ((0 + - 1) / 2)"
    by (rule sample_uniform) simp_all
  have u2: "uniform (Fin (- 1)) (Fin 0) (r_interval sample_single) = Fin ((- 1 + 0) / 2)"
    by (rule sample_uniform) simp_all
  have e: "sleep_error (Fin ((0 + - 1) / 2)) = Some ValueError"
          "sleep_error (Fin ((- 1 + 0) / 2)) = Some ValueError"
    by (simp_all add: sleep_error_def SLEEP_LIMIT_def)
  have "loop_body sample_single (sample_proc \<lparr>min_interval = Fin 0, max_interval = Fin (- 1)\<rparr>) = Inl ValueError"
    by (rule loop_body_sleep_fails[OF _ e(1)[folded u1]]) (simp add: sample_proc_config)
  moreover have "loop_body sample_single (sample_proc \<lparr>min_interval = Fin (- 1), max_interval = Fin 0\<rparr>) = Inl ValueError"
    by (rule loop_body_sleep_fails[OF _ e(2)[folded u2]]) (simp add: sample_proc_config)
  ultimately show ?thesis by simp
qed

lemma large_bound_fails_either_order:
  "loop_body sample_single (sample_proc \<lparr>min_interval = Fin (10 ^ 11), max_interval = Fin (10 ^ 10)\<rparr>) = Inl OverflowError \<and>
   loop_body sample_single (sample_proc \<lparr>min_interval = Fin (10 ^ 10), max_interval = Fin (10 ^ 11)\<rparr>) = Inl OverflowError"
proof -
  have u1: "uniform (Fin (10 ^ 11)) (Fin (10 ^ 10)) (r_interval sample_single) = Fin ((10 ^ 11 + 10 ^ 10) / 2)"
    by (rule sample_uniform) simp_all
  have u2: "uniform (Fin (10 ^ 10)) (Fin (10 ^ 11)) (r_interval sample_single) = Fin ((10 ^ 10 + 10 ^ 11) / 2)"
    by (rule sample_uniform) simp_all
  have e: "sleep_error (Fin ((10 ^ 11 + 10 ^ 10) / 2)) = Some OverflowError"
          "sleep_error (Fin ((10 ^ 10 + 10 ^ 11) / 2)) = Some OverflowError"
    by (simp_all add: sleep_error_def SLEEP_LIMIT_def)
  have "loop_body sample_single (sample_proc \<lparr>min_interval = Fin (10 ^ 11), max_interval = Fin (10 ^ 10)\<rparr>) = Inl OverflowError"
    by (rule loop_body_sleep_fails[OF _ e(1)[folded u1]]) (simp add: sample_proc_config)
  moreover have "loop_body sample_single (sample_proc \<lparr>min_interval = Fin (10 ^ 10), max_interval = Fin (10 ^ 11)\<rparr>) = Inl OverflowError"
    by (rule loop_body_sleep_fails[OF _ e(2)[folded u2]]) (simp add: sample_proc_config)
  ultimately show ?thesis by simp
qed

lemma infinite_bound_fails_either_order:
  "loop_body sample_single (sample_proc \<lparr>min_interval = PInf, max_interval = Fin 0\<rparr>) = Inl ValueError \<and>
   loop_body sample_single (sample_proc \<lparr>min_interval = Fin 0, max_interval = PInf\<rparr>) = Inl OverflowError"
proof -
  have e: "sleep_error (uniform PInf (Fin 0) (r_interval sample_single)) = Some ValueError"
          "sleep_error (uniform (Fin 0) PInf (r_interval sample_single)) = Some OverflowError"
    by (simp_all add: uniform_def fsub_def sample_single_def sleep_error_def)
  have "loop_body sample_single (sample_proc \<lparr>min_interval = PInf, max_interval = Fin 0\<rparr>) = Inl ValueError"
    by (rule loop_body_sleep_fails[OF _ e(1)]) (simp add: sample_proc_config)
  moreover have "loop_body sample_single (sample_proc \<lparr>min_interval = Fin 0, max_interval = PInf\<rparr>) = Inl OverflowError"
    by (rule loop_body_sleep_fails[OF _ e(2)]) (simp add: sample_proc_config)
  ultimately show ?thesis by simp
qed


section \<open>Facts about the appender\<close>

lemma append_one_fails: "NUM_FILES \<le> 0 \<Longrightarrow> append_one NUM_FILES k fs = Inl ValueError"
  by (simp add: append_one_def randint_checked_def)

lemma first_pick:
  "map f [0..<nat (randint 1 3 r)] = f 0 # map f [1..<nat (randint 1 3 r)]"
proof -
  have "1 \<le> randint 1 3 r" using randint_range[of 1 3 r] by simp
  then have "0 < nat (randint 1 3 r)" by simp
  then have "[0..<nat (randint 1 3 r)] = 0 # [Suc 0..<nat (randint 1 3 r)]"
    by (rule upt_conv_Cons)
  then show ?thesis by simp
qed

lemma append_round_fails:
  "NUM_FILES \<le> 0 \<Longrightarrow> append_round NUM_FILES a fs = (Some ValueError, fs)"
  by (simp add: append_round_def first_pick append_one_fails)

lemma append_logs_fails:
  "NUM_FILES \<le> 0 \<Longrightarrow> rounds \<noteq> [] \<Longrightarrow> append_logs NUM_FILES rounds fs = (Some ValueError, fs)"
  by (cases rounds) (simp_all add: append_round_fails)

lemma append_one_ok:
  assumes "1 \<le> NUM_FILES"
  shows "\<exists>line. append_one NUM_FILES k fs =
           Inr (append_to fs (test_log_path (randint 1 NUM_FILES (k_file_num k))) line)"
  using assms by (simp add: append_one_def randint_checked_def Let_def, blast)

text \<open>With a file count of at least one the appender cannot fail; it never removes a
  file and touches only the files \<open>test_N.log\<close> with \<open>N\<close> from 1 to the count.\<close>

lemma append_picks_ok:
  assumes "1 \<le> NUM_FILES"
  shows "fst (append_picks NUM_FILES ks fs) = None \<and>
         (\<forall>p. fs p \<noteq> None \<longrightarrow> snd (append_picks NUM_FILES ks fs) p \<noteq> None) \<and>
         (\<forall>p. (\<forall>N. 1 \<le> N \<and> N \<le> NUM_FILES \<longrightarrow> p \<noteq> test_log_path N) \<longrightarrow>
              snd (append_picks NUM_FILES ks fs) p = fs p)"
proof (induction ks arbitrary: fs)
  case Nil
  show ?case by simp
next
  case (Cons k ks)
  let ?N = "randint 1 NUM_FILES (k_file_num k)"
  obtain line where one: "append_one NUM_FILES k fs = Inr (append_to fs (test_log_path ?N) line)"
    using append_one_ok[OF assms] by blast
  have rng: "1 \<le> ?N \<and> ?N \<le> NUM_FILES" using randint_range[OF assms] .
  let ?fs = "append_to fs (test_log_path ?N) line"
  have step: "append_picks NUM_FILES (k # ks) fs = append_picks NUM_FILES ks ?fs"
    by (simp add: one)
  have keep: "fs p \<noteq> None \<longrightarrow> ?fs p \<noteq> None" for p by (simp add: append_to_def)
  have frame: "(\<forall>N. 1 \<le> N \<and> N \<le> NUM_FILES \<longrightarrow> p \<noteq> test_log_path N) \<longrightarrow> ?fs p = fs p" for p
    using rng by (auto simp: append_to_def)
  show ?case unfolding step using Cons.IH[of ?fs] keep frame by metis
qed

lemma append_picks_first:
  assumes "1 \<le> NUM_FILES"
  shows "snd (append_picks NUM_FILES (k # ks) fs)
           (test_log_path (randint 1 NUM_FILES (k_file_num k))) \<noteq> None"
proof -
  let ?N = "randint 1 NUM_FILES (k_file_num k)"
  obtain line where one: "append_one NUM_FILES k fs = Inr (append_to fs (test_log_path ?N) line)"
    using append_one_ok[OF assms] by blast
  let ?fs = "append_to fs (test_log_path ?N) line"
  have "?fs (test_log_path ?N) \<noteq> None" by (simp add: append_to_def)
  then have "snd (append_picks NUM_FILES ks ?fs) (test_log_path ?N) \<noteq> None"
    using append_picks_ok[OF assms, of ks ?fs] by blast
  then show ?thesis by (simp add: one)
qed

lemma appender_sleep_ok:
  assumes "0 \<le> u" "u \<le> 1"
  shows "sleep_error (uniform (Fin 0.1) (Fin 1.0) u) = None"
proof -
  have v: "uniform (Fin 0.1) (Fin 1.0) u = Fin (0.1 + (1.0 - 0.1) * u)"
    using assms by (intro uniform_small) simp_all
  have "min 0.1 1.0 \<le> 0.1 + (1.0 - 0.1) * u \<and> 0.1 + (1.0 - 0.1) * u \<le> max 0.1 1.0"
    using affine_range[OF assms, of "0.1" "1.0"] .
  then show ?thesis unfolding v by (auto simp: sleep_error_def SLEEP_LIMIT_def)
qed

lemma append_round_ok:
  assumes "1 \<le> NUM_FILES" "0 \<le> n_sleep a" "n_sleep a \<le> 1"
  shows "fst (append_round NUM_FILES a fs) = None \<and>
         (\<forall>p. fs p \<noteq> None \<longrightarrow> snd (append_round NUM_FILES a fs) p \<noteq> None) \<and>
         (\<forall>p. (\<forall>N. 1 \<le> N \<and> N \<le> NUM_FILES \<longrightarrow> p \<noteq> test_log_path N) \<longrightarrow>
              snd (append_round NUM_FILES a fs) p = fs p) \<and>
         snd (append_round NUM_FILES a fs)
           (test_log_path (randint 1 NUM_FILES (k_file_num (n_picks a 0)))) \<noteq> None"
proof -
  let ?ks = "map (n_picks a) [0..<nat (randint 1 3 (n_updates a))]"
  obtain fs' where picks: "append_picks NUM_FILES ?ks fs = (None, fs')"
    using append_picks_ok[OF assms(1), of ?ks fs] by (cases "append_picks NUM_FILES ?ks fs") simp
  have r: "append_round NUM_FILES a fs = (None, fs')"
    using appender_sleep_ok[OF assms(2,3)] by (simp add: append_round_def picks)
  have s: "fs' = snd (append_picks NUM_FILES ?ks fs)" by (simp add: picks)
  have first: "fs' (test_log_path (randint 1 NUM_FILES (k_file_num (n_picks a 0)))) \<noteq> None"
    unfolding s first_pick by (rule append_picks_first[OF assms(1)])
  show ?thesis unfolding r using append_picks_ok[OF assms(1), of ?ks fs] first
    unfolding s by simp
qed

lemma append_logs_ok:
  assumes "1 \<le> NUM_FILES" "\<forall>a \<in> set rounds. 0 \<le> n_sleep a \<and> n_sleep a \<le> 1"
  shows "fst (append_logs NUM_FILES rounds fs) = None \<and>
         (\<forall>p. fs p \<noteq> None \<longrightarrow> snd (append_logs NUM_FILES rounds fs) p \<noteq> None) \<and>
         (\<forall>p. (\<forall>N. 1 \<le> N \<and> N \<le> NUM_FILES \<longrightarrow> p \<noteq> test_log_path N) \<longrightarrow>
              snd (append_logs NUM_FILES rounds fs) p = fs p)"
  using assms(2)
proof (induction rounds arbitrary: fs)
  case Nil
  show ?case by simp
next
  case (Cons a rounds)
  have a: "0 \<le> n_sleep a" "n_sleep a \<le> 1" using Cons.prems by simp_all
  note r = append_round_ok[OF assms(1) a, of fs]
  obtain fs' where fs': "append_round NUM_FILES a fs = (None, fs')"
    using r by (cases "append_round NUM_FILES a fs") simp
  have step: "append_logs NUM_FILES (a # rounds) fs = append_logs NUM_FILES rounds fs'"
    by (simp add: fs')
  have ih: "fst (append_logs NUM_FILES rounds fs') = None \<and>
         (\<forall>p. fs' p \<noteq> None \<longrightarrow> snd (append_logs NUM_FILES rounds fs') p \<noteq> None) \<and>
         (\<forall>p. (\<forall>N. 1 \<le> N \<and> N \<le> NUM_FILES \<longrightarrow> p \<noteq> test_log_path N) \<longrightarrow>
              snd (append_logs NUM_FILES rounds fs') p = fs' p)"
    using Cons.IH[of fs'] Cons.prems by simp
  have keep: "fs p \<noteq> None \<longrightarrow> fs' p \<noteq> None" for p using r by (simp add: fs')
  have frame: "(\<forall>N. 1 \<le> N \<and> N \<le> NUM_FILES \<longrightarrow> p \<noteq> test_log_path N) \<longrightarrow> fs' p = fs p" for p
    using r by (simp add: fs')
  show ?case unfolding step using ih keep frame by metis
qed

lemma append_logs_first:
  assumes "1 \<le> NUM_FILES" "\<forall>a \<in> set (a0 # rounds). 0 \<le> n_sleep a \<and> n_sleep a \<le> 1"
  shows "snd (append_logs NUM_FILES (a0 # rounds) fs)
           (test_log_path (randint 1 NUM_FILES (k_file_num (n_picks a0 0)))) \<noteq> None"
proof -
  have a: "0 \<le> n_sleep a0" "n_sleep a0 \<le> 1" using assms(2) by simp_all
  have rest: "\<forall>a \<in> set rounds. 0 \<le> n_sleep a \<and> n_sleep a \<le> 1" using assms(2) by simp
  note r = append_round_ok[OF assms(1) a, of fs]
  obtain fs' where fs': "append_round NUM_FILES a0 fs = (None, fs')"
    using r by (cases "append_round NUM_FILES a0 fs") simp
  have "fs' (test_log_path (randint 1 NUM_FILES (k_file_num (n_picks a0 0)))) \<noteq> None"
    using r by (simp add: fs')
  then have "snd (append_logs NUM_FILES rounds fs')
               (test_log_path (randint 1 NUM_FILES (k_file_num (n_picks a0 0)))) \<noteq> None"
    using append_logs_ok[OF assms(1) rest, of fs'] by blast
  then show ?thesis by (simp add: fs')
qed

lemma layout_file_not_log: "LAYOUT_FILE \<noteq> test_log_path N"
  by (simp add: LAYOUT_FILE_def test_log_path_def LOG_DIR_def)

section \<open>Facts about a run of the layout script\<close>

lemma script_zero_groups:
  "tail_tree_script NUM_FILES 0 NESTED cwd clock rounds fs =
     \<lparr>main_raised = Some ZeroDivisionError, appender_raised = None, layout = [], disk = fs\<rparr>"
  by (simp add: tail_tree_script_def build_layout_def)

lemma script_no_files:
  assumes "NUM_GROUPS \<noteq> 0" "NUM_FILES \<le> 0"
  shows "\<exists>gs. tail_tree_script NUM_FILES NUM_GROUPS NESTED cwd clock rounds fs =
           \<lparr>main_raised = None,
            appender_raised = (if rounds = [] then None else Some ValueError),
            layout = gs,
            disk = fs(LAYOUT_FILE \<mapsto> yaml_head NUM_GROUPS NUM_FILES @
                                     concat (map (render_group ''  '' cwd) gs))\<rparr> \<and>
         length gs = nat NUM_GROUPS \<and> (\<forall>i < length gs. group_size (gs ! i) = 0)"
proof -
  let ?q = "NUM_FILES div NUM_GROUPS" and ?r = "NUM_FILES mod NUM_GROUPS"
  let ?loop = "group_loop NESTED clock ?q ?r [0..<nat NUM_GROUPS] 1 fs"
  let ?fs = "fs(LAYOUT_FILE \<mapsto> yaml_head NUM_GROUPS NUM_FILES @
                                 concat (map (render_group ''  '' cwd) (fst ?loop)))"
  have share: "?q + (if int i < ?r then 1 else 0) \<le> 0" if "i < nat NUM_GROUPS" for i :: nat
  proof -
    have "0 < NUM_GROUPS" using that by simp
    then show ?thesis using nonpositive_share[OF assms(2)] by blast
  qed
  have same: "snd ?loop = fs"
    by (rule group_loop_no_files) (simp add: share)
  have b: "build_layout NUM_FILES NUM_GROUPS NESTED cwd clock fs = Inr (fst ?loop, ?fs)"
    using build_layout_returns[OF assms(1), of NUM_FILES NESTED cwd clock fs] unfolding same .
  have app: "append_logs NUM_FILES rounds ?fs =
               ((if rounds = [] then None else Some ValueError), ?fs)"
    using append_logs_fails[OF assms(2), of rounds ?fs] by (cases rounds) simp_all
  have run: "tail_tree_script NUM_FILES NUM_GROUPS NESTED cwd clock rounds fs =
           \<lparr>main_raised = None,
            appender_raised = (if rounds = [] then None else Some ValueError),
            layout = fst ?loop, disk = ?fs\<rparr>"
    unfolding tail_tree_script_def b by (simp add: app)
  note all = group_loop_ok[of NESTED ?q ?r "[0..<nat NUM_GROUPS]" clock 1 fs]
  have len: "length (fst ?loop) = nat NUM_GROUPS"
    using list_all2_lengthD[OF all] by simp
  have "group_size (fst ?loop ! i) = 0" if lt: "i < length (fst ?loop)" for i
  proof -
    have "group_ok NESTED ?q ?r i (fst ?loop ! i)"
      using list_all2_nthD2[OF all lt] lt len by simp
    from group_ok_size[OF this] share[of i] lt len show ?thesis by simp
  qed
  with run len show ?thesis by blast
qed

lemma script_negative_groups:
  assumes "NUM_GROUPS < 0" "1 \<le> NUM_FILES"
      and "\<forall>a \<in> set rounds. 0 \<le> n_sleep a \<and> n_sleep a \<le> 1"
  shows "main_raised (tail_tree_script NUM_FILES NUM_GROUPS NESTED cwd clock rounds fs) = None \<and>
         appender_raised (tail_tree_script NUM_FILES NUM_GROUPS NESTED cwd clock rounds fs) = None \<and>
         layout (tail_tree_script NUM_FILES NUM_GROUPS NESTED cwd clock rounds fs) = [] \<and>
         disk (tail_tree_script NUM_FILES NUM_GROUPS NESTED cwd clock rounds fs) LAYOUT_FILE =
           Some (yaml_head NUM_GROUPS NUM_FILES) \<and>
         (\<forall>p. p \<noteq> LAYOUT_FILE \<and> (\<forall>N. 1 \<le> N \<and> N \<le> NUM_FILES \<longrightarrow> p \<noteq> test_log_path N) \<longrightarrow>
              disk (tail_tree_script NUM_FILES NUM_GROUPS NESTED cwd clock rounds fs) p = fs p) \<and>
         (rounds \<noteq> [] \<longrightarrow>
            disk (tail_tree_script NUM_FILES NUM_GROUPS NESTED cwd clock rounds fs)
              (test_log_path (randint 1 NUM_FILES (k_file_num (n_picks (hd rounds) 0)))) \<noteq> None)"
proof -
  let ?fs = "fs(LAYOUT_FILE \<mapsto> yaml_head NUM_GROUPS NUM_FILES)"
  have b: "build_layout NUM_FILES NUM_GROUPS NESTED cwd clock fs = Inr ([], ?fs)"
    using assms(1) by (simp add: build_layout_def Let_def)
  obtain fs' where fs': "append_logs NUM_FILES rounds ?fs = (None, fs')"
    using append_logs_ok[OF assms(2,3), of ?fs] by (cases "append_logs NUM_FILES rounds ?fs") simp
  have run: "tail_tree_script NUM_FILES NUM_GROUPS NESTED cwd clock rounds fs =
               \<lparr>main_raised = None, appender_raised = None, layout = [], disk = fs'\<rparr>"
    unfolding tail_tree_script_def b by (simp add: fs')
  have s: "fs' = snd (append_logs NUM_FILES rounds ?fs)" by (simp add: fs')
  note ok = append_logs_ok[OF assms(2,3), of ?fs, folded s]
  have lay: "fs' LAYOUT_FILE = Some (yaml_head NUM_GROUPS NUM_FILES)"
  proof -
    have "\<forall>N. 1 \<le> N \<and> N \<le> NUM_FILES \<longrightarrow> LAYOUT_FILE \<noteq> test_log_path N"
      by (simp add: layout_file_not_log)
    then have "fs' LAYOUT_FILE = ?fs LAYOUT_FILE" using ok by blast
    then show ?thesis by simp
  qed
  have frame: "fs' p = fs p"
    if "p \<noteq> LAYOUT_FILE" "\<forall>N. 1 \<le> N \<and> N \<le> NUM_FILES \<longrightarrow> p \<noteq> test_log_path N" for p
  proof -
    have "fs' p = ?fs p" using ok that(2) by blast
    then show ?thesis using that(1) by simp
  qed
  have first: "fs' (test_log_path (randint 1 NUM_FILES (k_file_num (n_picks (hd rounds) 0)))) \<noteq> None"
    if ne: "rounds \<noteq> []"
  proof -
    obtain a0 rest where r: "rounds = a0 # rest" using ne by (cases rounds) simp_all
    show ?thesis unfolding s r using append_logs_first[OF assms(2), of a0 rest ?fs] assms(3)
      unfolding r by simp
  qed
  show ?thesis unfolding run using lay frame first by simp
qed

section \<open>Claims about the rate configuration and the synthesizer\<close>

text \<open>
  C1, as the code has it. An explicit pair of bounds takes precedence over the preset
  when both are given. With exactly one bound given (or none) the resolution does not
  fail: it returns the preset named by \<open>--rate\<close>, and the single bound is ignored.
\<close>

theorem resolve_rate_precedence:
  assumes "a_rate a \<in> set rate_choices"
  shows "\<exists>preset. rate_presets (a_rate a) = Some preset \<and>
           resolve_rate a =
             (case (a_min_interval a, a_max_interval a) of
                (Some lo, Some hi) \<Rightarrow> Inr \<lparr>min_interval = lo, max_interval = hi\<rparr>
              | _ \<Rightarrow> Inr preset)"
proof -
  obtain preset where p: "rate_presets (a_rate a) = Some preset"
    using assms by (auto simp: rate_choices_def rate_presets_def)
  have "resolve_rate a =
          (case (a_min_interval a, a_max_interval a) of
             (Some lo, Some hi) \<Rightarrow> Inr \<lparr>min_interval = lo, max_interval = hi\<rparr>
           | _ \<Rightarrow> Inr preset)"
    using assms p
    by (simp add: resolve_rate_def parse_args_def determine_rate_config_def
             split: option.splits)
  with p show ?thesis by blast
qed

theorem resolve_rate_precedence_witness:
  "''fast'' \<in> set rate_choices \<and>
   resolve_rate \<lparr>a_files = 3, a_duration = 60, a_dir = ''test_logs'', a_rate = ''fast'',
       a_min_interval = None, a_max_interval = Some (Fin 7), a_prefix = ''test''\<rparr>
     = Inr \<lparr>min_interval = Fin 0.1, max_interval = Fin 0.5\<rparr>"
  using resolve_rate_precedence [of "\<lparr>a_files = 3, a_duration = 60, a_dir = ''test_logs'',
       a_rate = ''fast'', a_min_interval = None, a_max_interval = Some (Fin 7), a_prefix = ''test''\<rparr>"]
  by (simp add: rate_choices_def rate_presets_def)

text \<open>
  C1 as stated fails: with \<open>--min-interval 1\<close> alone the resolution returns the
  \<open>medium\<close> preset instead of a configuration error.
\<close>

theorem one_bound_counterexample:
  "resolve_rate \<lparr>a_files = 3, a_duration = 60, a_dir = ''test_logs'', a_rate = ''medium'',
       a_min_interval = Some (Fin 1), a_max_interval = None, a_prefix = ''test''\<rparr>
     = Inr \<lparr>min_interval = Fin 0.5, max_interval = Fin 2\<rparr>"
  by (simp add: resolve_rate_def parse_args_def determine_rate_config_def rate_choices_def
        rate_presets_def)

text \<open>
  C3, as the code has it. The four presets are slow 2.0 to 5.0, medium 0.5 to 2.0, fast
  0.1 to 0.5 and burst 0.01 to 0.1. A policy resolved from a preset satisfies
  \<open>0 \<le> min_interval \<le> max_interval\<close>. A two-bound override resolves to exactly the
  supplied bounds, unchecked, so it satisfies the invariant exactly when the supplied
  bounds do.
\<close>

theorem resolved_rate_invariant:
  assumes "resolve_rate a = Inr c"
  shows "(case (a_min_interval a, a_max_interval a) of
            (Some lo, Some hi) \<Rightarrow>
               c = \<lparr>min_interval = lo, max_interval = hi\<rparr> \<and> (rate_ok c \<longleftrightarrow> Fin 0 \<le> lo \<and> lo \<le> hi)
          | _ \<Rightarrow> rate_presets (a_rate a) = Some c \<and> rate_ok c) \<and>
         rate_presets ''slow'' = Some \<lparr>min_interval = Fin 2.0, max_interval = Fin 5.0\<rparr> \<and>
         rate_presets ''medium'' = Some \<lparr>min_interval = Fin 0.5, max_interval = Fin 2.0\<rparr> \<and>
         rate_presets ''fast'' = Some \<lparr>min_interval = Fin 0.1, max_interval = Fin 0.5\<rparr> \<and>
         rate_presets ''burst'' = Some \<lparr>min_interval = Fin 0.01, max_interval = Fin 0.1\<rparr>"
proof -
  have r: "a_rate a \<in> set rate_choices"
    using assms by (auto simp: resolve_rate_def parse_args_def split: if_splits)
  have presets_ok: "rate_ok p" if "rate_presets (a_rate a) = Some p" for p
    using r that by (auto simp: rate_choices_def rate_presets_def rate_ok_def)
  have "case (a_min_interval a, a_max_interval a) of
            (Some lo, Some hi) \<Rightarrow>
               c = \<lparr>min_interval = lo, max_interval = hi\<rparr> \<and> (rate_ok c \<longleftrightarrow> Fin 0 \<le> lo \<and> lo \<le> hi)
          | _ \<Rightarrow> rate_presets (a_rate a) = Some c \<and> rate_ok c"
    using assms r presets_ok
    by (auto simp: resolve_rate_def parse_args_def determine_rate_config_def rate_ok_def
             split: option.splits if_splits)
  then show ?thesis by (simp add: rate_presets_def)
qed

theorem resolved_rate_invariant_witness:
  "resolve_rate \<lparr>a_files = 3, a_duration = 60, a_dir = ''test_logs'', a_rate = ''burst'',
       a_min_interval = None, a_max_interval = None, a_prefix = ''test''\<rparr>
     = Inr \<lparr>min_interval = Fin 0.01, max_interval = Fin 0.1\<rparr> \<and>
   rate_ok \<lparr>min_interval = Fin 0.01, max_interval = Fin 0.1\<rparr>"
proof -
  have h: "resolve_rate \<lparr>a_files = 3, a_duration = 60, a_dir = ''test_logs'', a_rate = ''burst'',
       a_min_interval = None, a_max_interval = None, a_prefix = ''test''\<rparr>
     = Inr \<lparr>min_interval = Fin 0.01, max_interval = Fin 0.1\<rparr>"
    by (simp add: resolve_rate_def parse_args_def determine_rate_config_def rate_choices_def
          rate_presets_def)
  show ?thesis using h resolved_rate_invariant [OF h] by simp
qed

text \<open>
  C3 as stated fails for an override: \<open>--min-interval 5 --max-interval 1\<close> is resolved
  to the policy 5 to 1, whose lower bound exceeds its upper bound.
\<close>

theorem inverted_override_counterexample:
  "resolve_rate \<lparr>a_files = 3, a_duration = 60, a_dir = ''test_logs'', a_rate = ''medium'',
       a_min_interval = Some (Fin 5), a_max_interval = Some (Fin 1), a_prefix = ''test''\<rparr>
     = Inr \<lparr>min_interval = Fin 5, max_interval = Fin 1\<rparr> \<and>
   \<not> rate_ok \<lparr>min_interval = Fin 5, max_interval = Fin 1\<rparr>"
  by (simp add: resolve_rate_def parse_args_def determine_rate_config_def rate_choices_def
        rate_ok_def)

text \<open>
  C7. Every call of the synthesizer returns a line, and the line is the timestamp (the
  clock text without its last three digits), a space, the severity in brackets, a space,
  the component, \<open>" - "\<close>, the message and a newline. The severity is one of the five
  levels and the component one of the catalog, each left-aligned in its fixed width (5
  and 15); the message is the chosen template with its holes filled.
\<close>

theorem generate_log_line_shape:
  "\<exists>level component message.
     level \<in> set LOG_LEVELS \<and> component \<in> set LOG_COMPONENTS \<and>
     length (pad 5 level) = 5 \<and> length (pad 15 component) = 15 \<and>
     format (choice MESSAGE_TEMPLATES (r_template d)) (map_of (kwargs d)) = Inr message \<and>
     generate_log_line d =
       Inr (take (length (r_now d) - 3) (r_now d) @ '' ['' @ pad 5 level @ ''] '' @
            pad 15 component @ '' - '' @ message @ [CHR 0x0A])"
proof -
  define level where "level = choices LOG_LEVELS [0.3, 0.5, 0.12, 0.06, 0.02] (r_level d)"
  define component where "component = choice LOG_COMPONENTS (r_component d)"
  obtain message where
    m: "format (choice MESSAGE_TEMPLATES (r_template d)) (map_of (kwargs d)) = Inr message"
    using message_total by blast
  have l: "level \<in> set LOG_LEVELS"
    unfolding level_def by (rule choices_mem) (simp add: LOG_LEVELS_def)
  have c: "component \<in> set LOG_COMPONENTS"
    unfolding component_def by (rule choice_mem) (simp add: LOG_COMPONENTS_def)
  have "generate_log_line d =
       Inr (take (length (r_now d) - 3) (r_now d) @ '' ['' @ pad 5 level @ ''] '' @
            pad 15 component @ '' - '' @ message @ [CHR 0x0A])"
    using m by (simp add: generate_log_line_def Let_def render_line_def level_def component_def)
  with l c m level_width[OF l] component_width[OF c] show ?thesis by blast
qed

section \<open>Claims about the writer\<close>

text \<open>
  C2. A writer whose thread was started is stopped by \<open>stop\<close> at any point of its run,
  also in the middle of a burst: \<open>stop\<close> returns, the thread has ended, and after the
  flag was lowered the thread slept at most once, for the interval it had drawn for the
  round it was in; a thread that was between rounds ends without sleeping. When the
  thread had not ended by an exception before and the sleep it still has before it can
  be slept, it leaves its loop in the regular way, without an exception. That is so at
  every point a thread reaches from its start under a policy whose bounds lie between
  zero and the limit of \<open>time.sleep\<close>.
\<close>

theorem stop_terminates:
  assumes "thread (self (st t))"
  shows "\<exists>t' new. stop rs t = Some t' \<and> finished t' \<and>
           events (st t') = events (st t) @ new \<and>
           (sleeps new = [] \<or> sleeps new = [interval t]) \<and>
           (mid_round t \<or> sleeps new = []) \<and>
           ((\<forall>e. pc t \<noteq> Raised e) \<and> (mid_round t \<longrightarrow> sleep_error (interval t) = None) \<longrightarrow>
              pc t' = Returned) \<and>
           (t = (step rs ^^ k) (start g fs) \<and>
            min_interval (rate_config g) = Fin lo \<and> max_interval (rate_config g) = Fin hi \<and>
            0 \<le> min lo hi \<and> max lo hi < SLEEP_LIMIT \<and>
            (\<forall>n. 0 \<le> r_interval (rs n) \<and> r_interval (rs n) \<le> 1) \<longrightarrow>
              pc t' = Returned)"
proof -
  let ?s = "raise_stop t"
  have nr: "\<not> running (self (st ?s))" by (simp add: raise_stop_def)
  have same: "events (st ?s) = events (st t)" "interval ?s = interval t"
    "mid_round ?s = mid_round t" "thread (self (st ?s))" "pc ?s = pc t"
    using assms(1) by (simp_all add: raise_stop_def mid_round_def)
  have st: "stop rs t = join rs ?s"
    using same(4) by (simp add: stop_def Let_def)
  obtain t' new where j: "join rs ?s = Some t'" "finished t'"
    "events (st t') = events (st ?s) @ new"
    "sleeps new = [] \<or> sleeps new = [interval ?s]" "mid_round ?s \<or> sleeps new = []"
    using join_stopped[OF nr, of rs] by blast
  have regular: "pc t' = Returned"
    if nx: "\<forall>e. pc t \<noteq> Raised e" and ok: "mid_round t \<longrightarrow> sleep_error (interval t) = None"
  proof -
    have safe: "safe (rate_config (self (st ?s))) ?s"
      using nx ok same(2,3,5) by (auto simp: safe_def split: pc.splits)
    obtain t'' where r: "join rs ?s = Some t''" "pc t'' = Returned"
      using join_stopped_safe[OF nr safe, of rs] by blast
    show ?thesis using j(1) r by simp
  qed
  have reached: "pc t' = Returned"
    if t: "t = (step rs ^^ k) (start g fs)"
      and c: "min_interval (rate_config g) = Fin lo" "max_interval (rate_config g) = Fin hi"
      and b: "0 \<le> min lo hi" "max lo hi < SLEEP_LIMIT"
      and u: "\<forall>n. 0 \<le> r_interval (rs n) \<and> r_interval (rs n) \<le> 1"
  proof -
    have "safe (rate_config g) t"
      unfolding t using c b u start_safe by (rule steps_safe)
    then have "\<forall>e. pc t \<noteq> Raised e" "mid_round t \<longrightarrow> sleep_error (interval t) = None"
      by (auto simp: safe_def)
    then show ?thesis by (rule regular)
  qed
  show ?thesis using st j same(1-3) regular reached by auto
qed

theorem stop_terminates_witness:
  "thread (self (st sample_mid_burst)) \<and> pc sample_mid_burst = Burst 2 7 \<and>
   sleep_error (interval sample_mid_burst) = None \<and>
   (\<exists>t' new. stop sample_rounds sample_mid_burst = Some t' \<and> pc t' = Returned \<and>
      events (st t') = events (st sample_mid_burst) @ new \<and>
      (sleeps new = [] \<or> sleeps new = [interval sample_mid_burst]) \<and>
      (mid_round sample_mid_burst \<or> sleeps new = [])) \<and>
   (\<exists>t'. stop sample_rounds
            ((step sample_rounds ^^ 5)
               (start (LogGenerator ''test_logs/test_1.log''
                         \<lparr>min_interval = Fin 0.1, max_interval = Fin 0.5\<rparr> 1) Map.empty)) = Some t' \<and>
          pc t' = Returned)"
proof -
  let ?g = "LogGenerator ''test_logs/test_1.log'' \<lparr>min_interval = Fin 0.1, max_interval = Fin 0.5\<rparr> 1"
  let ?t = "(step sample_rounds ^^ 5) (start ?g Map.empty)"
  have h1: "thread (self (st sample_mid_burst))"
    by (simp add: sample_mid_burst_def sample_proc_def LogGenerator_def)
  have pc: "pc sample_mid_burst = Burst 2 7" by (simp add: sample_mid_burst_def)
  have h2: "\<forall>e. pc sample_mid_burst \<noteq> Raised e" by (simp add: pc)
  have ok: "sleep_error (interval sample_mid_burst) = None"
    by (simp add: sample_mid_burst_def sleep_error_def SLEEP_LIMIT_def)
  have first: "\<exists>t' new. stop sample_rounds sample_mid_burst = Some t' \<and> pc t' = Returned \<and>
      events (st t') = events (st sample_mid_burst) @ new \<and>
      (sleeps new = [] \<or> sleeps new = [interval sample_mid_burst]) \<and>
      (mid_round sample_mid_burst \<or> sleeps new = [])"
    using stop_terminates [OF h1, of sample_rounds] h2 ok by blast
  have g1: "thread (self (st ?t))" by (simp add: steps_thread start_def)
  have c: "min_interval (rate_config ?g) = Fin 0.1" "max_interval (rate_config ?g) = Fin 0.5"
    by (simp_all add: LogGenerator_def)
  have b: "(0::real) \<le> min 0.1 0.5" "max 0.1 0.5 < SLEEP_LIMIT"
    by (simp_all add: SLEEP_LIMIT_def)
  have u: "\<forall>n. 0 \<le> r_interval (sample_rounds n) \<and> r_interval (sample_rounds n) \<le> 1"
    by (simp add: sample_rounds_def sample_burst_def)
  have second: "\<exists>t'. stop sample_rounds ?t = Some t' \<and> pc t' = Returned"
    using stop_terminates [OF g1, of sample_rounds 5 ?g Map.empty "0.1" "0.5"] c b u by blast
  show ?thesis using h1 pc ok first second by blast
qed

text \<open>
  C4, as the code has it. In every round of the loop the writer first draws the
  interval, \<open>min + (max - min) * u\<close>, which lies between the bounds when they are
  finite and in order. It then appends its output: when the burst draw is below 0.10, a
  burst of \<open>randint(3, 10)\<close> synthesized lines, each written, flushed and counted on its
  own, followed by the burst message; otherwise exactly one synthesized line, flushed
  and counted. Only after that does it sleep for the drawn interval, or raise what
  \<open>time.sleep\<close> raises for an interval it cannot sleep.
\<close>

theorem loop_body_writes_then_sleeps:
  "(let interval = uniform (min_interval (rate_config (self p)))
                           (max_interval (rate_config (self p))) (r_interval r);
        burst = r_burst r < 0.1;
        burst_size = randint 3 10 (r_burst_size r);
        ds = (if burst then map (r_lines r) [0..<nat burst_size] else [r_lines r 0]);
        written = concat (map (\<lambda>d. [Wrote (the_line d), Flushed]) ds) @
                  (if burst then [Printed (burst_message (file_index (self p)) burst_size)] else [])
    in 3 \<le> burst_size \<and> burst_size \<le> 10 \<and>
       length ds = (if burst then nat burst_size else 1) \<and>
       (0 \<le> r_interval r \<and> r_interval r \<le> 1 \<and>
        min_interval (rate_config (self p)) = Fin a \<and>
        max_interval (rate_config (self p)) = Fin b \<and>
        a \<le> b \<and> \<bar>a\<bar> \<le> FLOAT_MAX \<and> \<bar>b\<bar> \<le> FLOAT_MAX \<and> b - a \<le> FLOAT_MAX \<longrightarrow>
          min_interval (rate_config (self p)) \<le> interval \<and>
          interval \<le> max_interval (rate_config (self p)) \<and>
          interval = Fin (a + (b - a) * r_interval r)) \<and>
       (case sleep_error interval of
          Some e \<Rightarrow> loop_body r p = Inl e
        | None \<Rightarrow>
            (\<exists>p'. loop_body r p = Inr p' \<and>
               events p' = events p @ written @ [Slept interval] \<and>
               self p' = (self p)\<lparr>lines_written := lines_written (self p) + int (length ds)\<rparr> \<and>
               files p' (filepath (self p)) =
                 Some (content (files p) (filepath (self p)) @ f_buffer p @ concat (map the_line ds)) \<and>
               f_buffer p' = [])))"
  by (rule loop_body_effect)

theorem loop_body_writes_then_sleeps_witness:
  "(0::real) \<le> 1/2 \<and> (1/2::real) \<le> 1 \<and> (0.1::real) \<le> 0.5 \<and>
   \<bar>0.1::real\<bar> \<le> FLOAT_MAX \<and> \<bar>0.5::real\<bar> \<le> FLOAT_MAX \<and> (0.5::real) - 0.1 \<le> FLOAT_MAX \<and>
   Fin 0.1 \<le> uniform (Fin 0.1) (Fin 0.5) (1/2) \<and> uniform (Fin 0.1) (Fin 0.5) (1/2) \<le> Fin 0.5 \<and>
   sleep_error (uniform (Fin 0.1) (Fin 0.5) (1/2)) = None \<and>
   (\<exists>p'. loop_body sample_burst (sample_proc \<lparr>min_interval = Fin 0.1, max_interval = Fin 0.5\<rparr>) = Inr p' \<and>
      lines_written (self p') = 7 \<and> last (events p') = Slept (Fin (3/10)))"
proof -
  let ?p = "sample_proc \<lparr>min_interval = Fin 0.1, max_interval = Fin 0.5\<rparr>"
  have big: "(1::real) \<le> FLOAT_MAX" using float_max_large by simp
  have h: "(0::real) \<le> 1/2" "(1/2::real) \<le> 1" "(0.1::real) \<le> 0.5"
    "\<bar>0.1::real\<bar> \<le> FLOAT_MAX" "\<bar>0.5::real\<bar> \<le> FLOAT_MAX" "(0.5::real) - 0.1 \<le> FLOAT_MAX"
    using big by simp_all
  have cfg: "min_interval (rate_config (self ?p)) = Fin 0.1"
    "max_interval (rate_config (self ?p)) = Fin 0.5" "r_interval sample_burst = 1/2"
    "lines_written (self ?p) = 0"
    by (simp_all add: sample_proc_def LogGenerator_def sample_burst_def)
  have b: "r_burst sample_burst < 0.1" "randint 3 10 (r_burst_size sample_burst) = 7"
    by (simp_all add: randint_def sample_burst_def)
  note t = loop_body_writes_then_sleeps [where p = ?p and r = sample_burst and a = "0.1"
      and b = "0.5", unfolded Let_def cfg]
  note range = t[THEN conjunct2, THEN conjunct2, THEN conjunct2, THEN conjunct1]
  note sleep = t[THEN conjunct2, THEN conjunct2, THEN conjunct2, THEN conjunct2]
  have r: "Fin 0.1 \<le> uniform (Fin 0.1) (Fin 0.5) (1/2)"
    "uniform (Fin 0.1) (Fin 0.5) (1/2) \<le> Fin 0.5"
    "uniform (Fin 0.1) (Fin 0.5) (1/2) = Fin (0.1 + (0.5 - 0.1) * (1/2))"
    using range h by blast+
  have v: "uniform (Fin 0.1) (Fin 0.5) (1/2) = Fin (3/10)" using r(3) by simp
  have ok: "sleep_error (Fin (3/10)) = None"
    by (simp add: sleep_error_def SLEEP_LIMIT_def)
  have "\<exists>p'. loop_body sample_burst ?p = Inr p' \<and>
          events p' = events ?p @
            (concat (map (\<lambda>d. [Wrote (the_line d), Flushed]) (map (r_lines sample_burst) [0..<nat 7])) @
             [Printed (burst_message (file_index (self ?p)) 7)]) @ [Slept (Fin (3/10))] \<and>
          self p' = (self ?p)\<lparr>lines_written := 0 +
                       int (length (map (r_lines sample_burst) [0..<nat 7]))\<rparr>"
    using sleep unfolding v ok b(2) using b(1) by auto
  then obtain p' where p': "loop_body sample_burst ?p = Inr p'"
     "events p' = events ?p @
            (concat (map (\<lambda>d. [Wrote (the_line d), Flushed]) (map (r_lines sample_burst) [0..<nat 7])) @
             [Printed (burst_message (file_index (self ?p)) 7)]) @ [Slept (Fin (3/10))]"
     "self p' = (self ?p)\<lparr>lines_written := 0 +
                       int (length (map (r_lines sample_burst) [0..<nat 7]))\<rparr>"
    by blast
  have "last (events p') = Slept (Fin (3/10))" unfolding p'(2) by simp
  moreover have "lines_written (self p') = 7" unfolding p'(3) by simp
  ultimately show ?thesis using p'(1) h r(1,2) ok v by simp
qed

text \<open>
  C4 as stated fails on the order: a round that writes a single line writes and
  flushes it first, and sleeps last.
\<close>

theorem writes_before_sleep_counterexample:
  "map_sum id events (loop_body sample_single (sample_proc \<lparr>min_interval = Fin 0.1, max_interval = Fin 0.5\<rparr>))
     = Inr [Wrote (the_line sample_line), Flushed, Slept (Fin (3/10))]"
proof -
  obtain p' where "loop_body sample_single (sample_proc \<lparr>min_interval = Fin 0.1, max_interval = Fin 0.5\<rparr>) = Inr p'"
    "events p' = [Wrote (the_line sample_line), Flushed, Slept (Fin (3/10))]"
    using sample_single_round by blast
  then show ?thesis by simp
qed




text \<open>
  C8. Creating a file writes exactly the three header lines at its path, whatever the
  path held before, and leaves every other path alone; doing it again changes nothing,
  and doing it after the writer has appended puts the file back to a fresh header. The
  header counts three lines when the clock text and the float texts contain no newline.
  A writer started on the file only extends it: after any number of its steps the file
  is the header followed by what was appended, and every completed round makes it
  strictly longer. When \<open>main\<close> has created its files, there is one generator per
  file, in order, and each file holds exactly its header.
\<close>

theorem header_reset_then_grow:
  "write_header now float_str cfg path fs = fs(path \<mapsto> header_text now float_str cfg) \<and>
   write_header now float_str cfg path (write_header now float_str cfg path fs) =
     write_header now float_str cfg path fs \<and>
   (CHR 0x0A \<notin> set now \<and> CHR 0x0A \<notin> set (float_str (min_interval cfg)) \<and>
    CHR 0x0A \<notin> set (float_str (max_interval cfg)) \<longrightarrow>
      count_lines (header_text now float_str cfg) = 3) \<and>
   (\<exists>extra. content (files (st ((step rs ^^ k)
                 (start (LogGenerator path cfg idx) (write_header now float_str cfg path fs)))))
               path = header_text now float_str cfg @ extra) \<and>
   (loop_body r p = Inr p' \<longrightarrow>
      length (content (files p) (filepath (self p))) <
      length (content (files p') (filepath (self p)))) \<and>
   write_header now' float_str cfg path
      (files (st ((step rs ^^ k)
         (start (LogGenerator path cfg idx) (write_header now float_str cfg path fs))))) path =
     Some (header_text now' float_str cfg) \<and>
   (main_setup a clock float_str fs = Inr (fs1, gens) \<longrightarrow>
      (\<exists>cfg'. resolve_rate a = Inr cfg' \<and>
         gens = map (\<lambda>i. LogGenerator (log_name (a_dir a) (a_prefix a) (int i)) cfg' (int i + 1))
                  [0..<nat (a_files a)] \<and>
         (\<forall>i < nat (a_files a).
            fs1 (log_name (a_dir a) (a_prefix a) (int i)) =
              Some (header_text (clock i) float_str cfg'))))"
proof -
  let ?t = "start (LogGenerator path cfg idx) (write_header now float_str cfg path fs)"
  have created: "main_setup a clock float_str fs = Inr (fs1, gens) \<longrightarrow>
      (\<exists>cfg'. resolve_rate a = Inr cfg' \<and>
         gens = map (\<lambda>i. LogGenerator (log_name (a_dir a) (a_prefix a) (int i)) cfg' (int i + 1))
                  [0..<nat (a_files a)] \<and>
         (\<forall>i < nat (a_files a).
            fs1 (log_name (a_dir a) (a_prefix a) (int i)) =
              Some (header_text (clock i) float_str cfg')))"
    using main_setup_files by blast
  have p: "filepath (self (st ?t)) = path" by (simp add: start_def LogGenerator_def)
  have c: "content (files (st ?t)) path = header_text now float_str cfg"
    by (simp add: start_def write_header_result content_def)
  have grow: "\<exists>extra. content (files (st ((step rs ^^ k) ?t))) path =
                header_text now float_str cfg @ extra"
    using steps_content[where rs = rs and k = k and t = ?t] unfolding p c by blast
  have idem: "write_header now float_str cfg path (write_header now float_str cfg path fs) =
     write_header now float_str cfg path fs"
    by (simp add: write_header_result)
  have three: "CHR 0x0A \<notin> set now \<and> CHR 0x0A \<notin> set (float_str (min_interval cfg)) \<and>
    CHR 0x0A \<notin> set (float_str (max_interval cfg)) \<longrightarrow>
      count_lines (header_text now float_str cfg) = 3"
    using header_three_lines by blast
  have strict: "loop_body r p = Inr p' \<longrightarrow>
      length (content (files p) (filepath (self p))) <
      length (content (files p') (filepath (self p)))"
    using loop_body_grows by blast
  have again: "write_header now' float_str cfg path (files (st ((step rs ^^ k) ?t))) path =
     Some (header_text now' float_str cfg)"
    by (simp add: write_header_result)
  from write_header_result idem three grow strict again created show ?thesis by blast
qed

theorem header_reset_then_grow_witness:
  "CHR 0x0A \<notin> set (sample_clock 0) \<and>
   CHR 0x0A \<notin> set (sample_float_str (min_interval \<lparr>min_interval = Fin 0.1, max_interval = Fin 0.5\<rparr>)) \<and>
   CHR 0x0A \<notin> set (sample_float_str (max_interval \<lparr>min_interval = Fin 0.1, max_interval = Fin 0.5\<rparr>)) \<and>
   count_lines (header_text (sample_clock 0) sample_float_str \<lparr>min_interval = Fin 0.1, max_interval = Fin 0.5\<rparr>) = 3 \<and>
   (\<exists>p'. loop_body sample_single (sample_proc \<lparr>min_interval = Fin 0.1, max_interval = Fin 0.5\<rparr>) = Inr p' \<and>
      length (content (files (sample_proc \<lparr>min_interval = Fin 0.1, max_interval = Fin 0.5\<rparr>))
                (filepath (self (sample_proc \<lparr>min_interval = Fin 0.1, max_interval = Fin 0.5\<rparr>)))) <
      length (content (files p')
                (filepath (self (sample_proc \<lparr>min_interval = Fin 0.1, max_interval = Fin 0.5\<rparr>)))))"
proof -
  let ?cfg = "\<lparr>min_interval = Fin 0.1, max_interval = Fin 0.5\<rparr>"
  obtain p' where p': "loop_body sample_single (sample_proc ?cfg) = Inr p'"
    using sample_single_round by blast
  have n: "CHR 0x0A \<notin> set (sample_clock 0)"
    "CHR 0x0A \<notin> set (sample_float_str (min_interval ?cfg))"
    "CHR 0x0A \<notin> set (sample_float_str (max_interval ?cfg))"
    by (simp_all add: sample_clock_def sample_float_str_def)
  note t = header_reset_then_grow [where now = "sample_clock 0" and float_str = sample_float_str
     and cfg = ?cfg and path = "''test_logs/test_1.log''" and fs = Map.empty
     and rs = sample_rounds and k = 0 and idx = 1 and r = sample_single
     and p = "sample_proc ?cfg" and p' = p' and now' = "sample_clock 1"]
  have "count_lines (header_text (sample_clock 0) sample_float_str ?cfg) = 3"
    using t n by blast
  moreover have "length (content (files (sample_proc ?cfg)) (filepath (self (sample_proc ?cfg)))) <
      length (content (files p') (filepath (self (sample_proc ?cfg))))"
    using t p' by blast
  ultimately show ?thesis using n p' by blast
qed


section \<open>Claims about the layout\<close>

text \<open>
  C5. Whenever the layout is built (the group count is not zero), there is one group per
  position below the group count; the group at position \<open>i\<close> holds
  \<open>file_count // group_count\<close> files and one more if \<open>i\<close> is below
  \<open>file_count mod group_count\<close> (no files where that number is negative), so that the
  sizes of any two groups differ by at most one. With \<open>nested\<close> the first group is split
  into two sub-groups holding \<open>k div 2\<close> and \<open>k - k div 2\<close> of its \<open>k\<close> files; every
  other group, and every group without \<open>nested\<close>, is flat. For a file count that is
  not negative and a positive group count the groups, read in order, hold the files 1 to
  \<open>file_count\<close>, each once.
\<close>

theorem layout_partition:
  assumes "build_layout NUM_FILES NUM_GROUPS NESTED cwd clock fs = Inr (gs, fs')"
  shows "length gs = nat NUM_GROUPS \<and>
     (\<forall>i < length gs. group_size (gs ! i) =
         nat (NUM_FILES div NUM_GROUPS + (if int i < NUM_FILES mod NUM_GROUPS then 1 else 0))) \<and>
     (\<forall>i < length gs. \<forall>j < length gs. group_size (gs ! i) \<le> group_size (gs ! j) + 1) \<and>
     (\<forall>i < length gs.
         if NESTED \<and> i = 0
         then (\<exists>core background. g_body (gs ! i) = Nested core background \<and>
                 length core = group_size (gs ! i) div 2 \<and>
                 length background = group_size (gs ! i) - group_size (gs ! i) div 2)
         else (\<exists>nums. g_body (gs ! i) = Flat nums)) \<and>
     (0 \<le> NUM_FILES \<and> 0 < NUM_GROUPS \<longrightarrow>
        concat (map (\<lambda>g. group_files (g_body g)) gs) = [1..NUM_FILES])"
proof -
  let ?q = "NUM_FILES div NUM_GROUPS" and ?r = "NUM_FILES mod NUM_GROUPS"
  note all = build_layout_groups[OF assms]
  have numbering: "0 \<le> NUM_FILES \<and> 0 < NUM_GROUPS \<longrightarrow>
        concat (map (\<lambda>g. group_files (g_body g)) gs) = [1..NUM_FILES]"
    using build_layout_numbering[OF assms] by blast
  have len: "length gs = nat NUM_GROUPS"
    using list_all2_lengthD[OF all] by simp
  have ok: "group_ok NESTED ?q ?r i (gs ! i)" if "i < length gs" for i
    using list_all2_nthD2[OF all that] that len by simp
  have size: "group_size (gs ! i) = nat (?q + (if int i < ?r then 1 else 0))"
    if "i < length gs" for i
    using group_ok_size[OF ok[OF that]] .
  have near: "group_size (gs ! i) \<le> group_size (gs ! j) + 1"
    if "i < length gs" "j < length gs" for i j
  proof -
    have "nat (a + (if P then 1 else 0)) \<le> nat (a + (if Q then 1 else 0)) + 1"
      for a :: int and P Q by (cases P; cases Q) auto
    then show ?thesis unfolding size[OF that(1)] size[OF that(2)] .
  qed
  have body: "if NESTED \<and> i = 0
         then (\<exists>core background. g_body (gs ! i) = Nested core background \<and>
                 length core = group_size (gs ! i) div 2 \<and>
                 length background = group_size (gs ! i) - group_size (gs ! i) div 2)
         else (\<exists>nums. g_body (gs ! i) = Flat nums)" if lt: "i < length gs" for i
  proof (cases "NESTED \<and> i = 0")
    case True
    define k where "k = ?q + (if int i < ?r then 1 else 0)"
    note oki = ok[OF lt]
    obtain core background where b: "g_body (gs ! i) = Nested core background"
      "length core = nat (k div 2)" "length background = nat (k - k div 2)"
      using oki True unfolding group_ok_def Let_def k_def by auto
    have s: "group_size (gs ! i) = nat k" using size[OF lt] by (simp add: k_def)
    have "nat (k div 2) = nat k div 2" "nat (k - k div 2) = nat k - nat k div 2"
      by linarith+
    then show ?thesis using True b s by simp
  next
    case False
    then show ?thesis using ok[OF lt] unfolding group_ok_def Let_def by auto
  qed
  from len size near body numbering show ?thesis by blast
qed

theorem layout_partition_witness:
  "\<exists>gs fs'. build_layout 10 3 False ''/w'' sample_stamp Map.empty = Inr (gs, fs') \<and>
     length gs = 3 \<and> group_size (gs ! 0) = 4 \<and> group_size (gs ! 1) = 3 \<and>
     group_size (gs ! 2) = 3"
proof -
  obtain gs fs' where h: "build_layout 10 3 False ''/w'' sample_stamp Map.empty = Inr (gs, fs')"
    using build_layout_returns[of 3 10 False "''/w''" sample_stamp Map.empty] by simp
  note t = layout_partition [OF h]
  have len: "length gs = 3" using t by simp
  have "\<forall>i < length gs. group_size (gs ! i) =
          nat ((10::int) div 3 + (if int i < 10 mod 3 then 1 else 0))"
    using t by blast
  then have "group_size (gs ! 0) = 4" "group_size (gs ! 1) = 3" "group_size (gs ! 2) = 3"
    using len by simp_all
  with h len show ?thesis by blast
qed

text \<open>
  C6, as the code has it. The flag is \<open>"true" if group_num > 1 else "false"\<close> on
  positions that start at 0: the groups at positions 0 and 1 have \<open>collapsed = false\<close>
  and every group from position 2 on has \<open>collapsed = true\<close>.
\<close>

theorem collapsed_flags:
  assumes "build_layout NUM_FILES NUM_GROUPS NESTED cwd clock fs = Inr (gs, fs')"
  shows "length gs = nat NUM_GROUPS \<and>
         (\<forall>i < length gs. g_collapsed (gs ! i) = (if i \<le> 1 then ''false'' else ''true''))"
proof -
  note all = build_layout_groups[OF assms]
  have len: "length gs = nat NUM_GROUPS"
    using list_all2_lengthD[OF all] by simp
  have "g_collapsed (gs ! i) = (if i \<le> 1 then ''false'' else ''true'')" if "i < length gs" for i
  proof -
    have "group_ok NESTED (NUM_FILES div NUM_GROUPS) (NUM_FILES mod NUM_GROUPS) i (gs ! i)"
      using list_all2_nthD2[OF all that] that len by simp
    then show ?thesis unfolding group_ok_def Let_def by auto
  qed
  with len show ?thesis by blast
qed

theorem collapsed_flags_witness:
  "\<exists>gs fs'. build_layout 10 3 False ''/w'' sample_stamp Map.empty = Inr (gs, fs') \<and>
     g_collapsed (gs ! 0) = ''false'' \<and> g_collapsed (gs ! 1) = ''false'' \<and>
     g_collapsed (gs ! 2) = ''true''"
proof -
  obtain gs fs' where h: "build_layout 10 3 False ''/w'' sample_stamp Map.empty = Inr (gs, fs')"
    using build_layout_returns[of 3 10 False "''/w''" sample_stamp Map.empty] by simp
  note t = collapsed_flags [OF h]
  have len: "length gs = 3" using t by simp
  have "\<forall>i < length gs. g_collapsed (gs ! i) = (if i \<le> 1 then ''false'' else ''true'')"
    using t by blast
  then have "g_collapsed (gs ! 0) = ''false''" "g_collapsed (gs ! 1) = ''false''"
    "g_collapsed (gs ! 2) = ''true''"
    using len by simp_all
  with h show ?thesis by blast
qed

text \<open>
  C6 as stated fails at position 1: with three groups the second group is emitted with
  \<open>collapsed: false\<close>.
\<close>

theorem second_group_expanded_counterexample:
  "(case build_layout 10 3 False ''/w'' sample_stamp Map.empty of
      Inr (gs, fs') \<Rightarrow> g_collapsed (gs ! 1) = ''false''
    | Inl e \<Rightarrow> False)"
proof -
  obtain gs fs' where h: "build_layout 10 3 False ''/w'' sample_stamp Map.empty = Inr (gs, fs')"
    using build_layout_returns[of 3 10 False "''/w''" sample_stamp Map.empty] by simp
  note all = build_layout_groups[OF h]
  have len: "length gs = 3" using list_all2_lengthD[OF all] by simp
  have lt: "1 < length gs" using len by simp
  have "group_ok False (10 div 3) (10 mod 3) ([0..<nat 3] ! 1) (gs ! 1)"
    using list_all2_nthD2[OF all lt] .
  then have "g_collapsed (gs ! 1) = ''false''"
    unfolding group_ok_def Let_def by simp
  then show ?thesis using h by simp
qed


section \<open>Claims about the counts\<close>

text \<open>
  C9, as the code has it. Neither script checks its counts. With a file count of zero or
  less the generator raises nothing: it creates no file, builds no writer and goes on
  with an empty session. In the layout script a group count of zero stops the main
  thread with \<open>ZeroDivisionError\<close> before any group is generated, before the layout is
  written and before the appender is started, so that the files are left as they were.
  With a group count other than zero and a file count of zero or less the main thread
  raises nothing and writes a layout whose groups, as many as the group count when it is
  positive and none otherwise, are all empty; no log file is created, and the appender
  thread that is then started ends with \<open>ValueError\<close> in its first round, at
  \<open>random.randint(1, NUM_FILES)\<close>, before it opens a file. With a negative group count
  and a file count of one or more the main thread raises nothing, writes a layout
  without groups and creates no log file, but the appender it starts never fails: it
  creates or extends \<open>test_N.log\<close> for numbers \<open>N\<close> from 1 to the file count, the
  first of them in its first round, and touches no other file. \<open>rounds\<close> are the draws
  of the rounds the appender begins before it sees \<open>should_stop\<close>; a failure of the
  appender ends its thread only.
\<close>

theorem nonpositive_counts_not_rejected:
  "(a_rate a \<in> set rate_choices \<and> a_files a \<le> 0 \<longrightarrow>
      main_setup a clock float_str fs = Inr (fs, [])) \<and>
   tail_tree_script NUM_FILES 0 NESTED cwd stamp rounds fs =
     \<lparr>main_raised = Some ZeroDivisionError, appender_raised = None, layout = [], disk = fs\<rparr> \<and>
   (NUM_GROUPS \<noteq> 0 \<and> NUM_FILES \<le> 0 \<longrightarrow>
      (\<exists>gs. tail_tree_script NUM_FILES NUM_GROUPS NESTED cwd stamp rounds fs =
               \<lparr>main_raised = None,
                appender_raised = (if rounds = [] then None else Some ValueError),
                layout = gs,
                disk = fs(LAYOUT_FILE \<mapsto> yaml_head NUM_GROUPS NUM_FILES @
                                         concat (map (render_group ''  '' cwd) gs))\<rparr> \<and>
            length gs = nat NUM_GROUPS \<and> (\<forall>i < length gs. group_size (gs ! i) = 0))) \<and>
   (NUM_GROUPS < 0 \<and> 1 \<le> NUM_FILES \<and> (\<forall>a \<in> set rounds. 0 \<le> n_sleep a \<and> n_sleep a \<le> 1) \<longrightarrow>
      main_raised (tail_tree_script NUM_FILES NUM_GROUPS NESTED cwd stamp rounds fs) = None \<and>
      appender_raised (tail_tree_script NUM_FILES NUM_GROUPS NESTED cwd stamp rounds fs) = None \<and>
      layout (tail_tree_script NUM_FILES NUM_GROUPS NESTED cwd stamp rounds fs) = [] \<and>
      disk (tail_tree_script NUM_FILES NUM_GROUPS NESTED cwd stamp rounds fs) LAYOUT_FILE =
        Some (yaml_head NUM_GROUPS NUM_FILES) \<and>
      (\<forall>p. p \<noteq> LAYOUT_FILE \<and> (\<forall>N. 1 \<le> N \<and> N \<le> NUM_FILES \<longrightarrow> p \<noteq> test_log_path N) \<longrightarrow>
           disk (tail_tree_script NUM_FILES NUM_GROUPS NESTED cwd stamp rounds fs) p = fs p) \<and>
      (rounds \<noteq> [] \<longrightarrow>
         disk (tail_tree_script NUM_FILES NUM_GROUPS NESTED cwd stamp rounds fs)
           (test_log_path (randint 1 NUM_FILES (k_file_num (n_picks (hd rounds) 0)))) \<noteq> None))"
proof -
  have files: "main_setup a clock float_str fs = Inr (fs, [])"
    if rate: "a_rate a \<in> set rate_choices" and none: "a_files a \<le> 0"
  proof -
    have pa: "parse_args a = Inr a" using rate by (simp add: parse_args_def)
    obtain preset where "rate_presets (a_rate a) = Some preset"
      using rate by (auto simp: rate_choices_def rate_presets_def)
    then have "\<exists>cfg. determine_rate_config a = Inr cfg"
      by (simp add: determine_rate_config_def)
    then obtain cfg where "resolve_rate a = Inr cfg"
      using pa by (auto simp: resolve_rate_def)
    then show ?thesis using none by (simp add: main_setup_def)
  qed
  note zero = script_zero_groups[of NUM_FILES NESTED cwd stamp rounds fs]
  have empty: "\<exists>gs. tail_tree_script NUM_FILES NUM_GROUPS NESTED cwd stamp rounds fs =
               \<lparr>main_raised = None,
                appender_raised = (if rounds = [] then None else Some ValueError),
                layout = gs,
                disk = fs(LAYOUT_FILE \<mapsto> yaml_head NUM_GROUPS NUM_FILES @
                                         concat (map (render_group ''  '' cwd) gs))\<rparr> \<and>
            length gs = nat NUM_GROUPS \<and> (\<forall>i < length gs. group_size (gs ! i) = 0)"
    if "NUM_GROUPS \<noteq> 0" "NUM_FILES \<le> 0"
    using that by (rule script_no_files)
  note neg = script_negative_groups[of NUM_GROUPS NUM_FILES rounds NESTED cwd stamp fs]
  from files zero empty neg show ?thesis by blast
qed

theorem nonpositive_counts_not_rejected_witness:
  "a_rate ((sample_args None None)\<lparr>a_files := 0\<rparr>) \<in> set rate_choices \<and>
   a_files ((sample_args None None)\<lparr>a_files := 0\<rparr>) \<le> 0 \<and>
   main_setup ((sample_args None None)\<lparr>a_files := 0\<rparr>) sample_clock sample_float_str Map.empty =
     Inr (Map.empty, []) \<and>
   (3 :: int) \<noteq> 0 \<and> (0 :: int) \<le> 0 \<and>
   main_raised (tail_tree_script 0 3 False ''/w'' sample_stamp [sample_append] Map.empty) = None \<and>
   appender_raised (tail_tree_script 0 3 False ''/w'' sample_stamp [sample_append] Map.empty) =
     Some ValueError \<and>
   length (layout (tail_tree_script 0 3 False ''/w'' sample_stamp [sample_append] Map.empty)) = 3 \<and>
   (- 2 :: int) < 0 \<and> (1 :: int) \<le> 10 \<and>
   0 \<le> n_sleep sample_append \<and> n_sleep sample_append \<le> 1 \<and>
   main_raised (tail_tree_script 10 (- 2) False ''/w'' sample_stamp [sample_append] Map.empty) = None \<and>
   appender_raised (tail_tree_script 10 (- 2) False ''/w'' sample_stamp [sample_append] Map.empty) =
     None \<and>
   layout (tail_tree_script 10 (- 2) False ''/w'' sample_stamp [sample_append] Map.empty) = [] \<and>
   disk (tail_tree_script 10 (- 2) False ''/w'' sample_stamp [sample_append] Map.empty)
     (test_log_path 5) \<noteq> None"
proof -
  let ?a = "(sample_args None None)\<lparr>a_files := 0\<rparr>"
  let ?nofiles = "tail_tree_script 0 3 False ''/w'' sample_stamp [sample_append] Map.empty"
  let ?run = "tail_tree_script 10 (- 2) False ''/w'' sample_stamp [sample_append] Map.empty"
  have h: "a_rate ?a \<in> set rate_choices" "a_files ?a \<le> 0"
    by (simp_all add: sample_args_def rate_choices_def)
  have d: "\<forall>a \<in> set [sample_append]. 0 \<le> n_sleep a \<and> n_sleep a \<le> 1"
    by (simp add: sample_append_def)
  have n: "randint 1 10 (k_file_num (n_picks (hd [sample_append]) 0)) = 5"
    by (simp add: randint_def sample_append_def)
  note t0 = nonpositive_counts_not_rejected
    [where a = ?a and clock = sample_clock and float_str = sample_float_str and fs = Map.empty
       and NUM_FILES = 0 and NUM_GROUPS = 3 and NESTED = False and cwd = "''/w''"
       and stamp = sample_stamp and rounds = "[sample_append]"]
  note t = nonpositive_counts_not_rejected
    [where a = ?a and clock = sample_clock and float_str = sample_float_str and fs = Map.empty
       and NUM_FILES = 10 and NUM_GROUPS = "- 2" and NESTED = False and cwd = "''/w''"
       and stamp = sample_stamp and rounds = "[sample_append]"]
  have g: "main_setup ?a sample_clock sample_float_str Map.empty = Inr (Map.empty, [])"
    using t h by blast
  obtain gs where gs: "?nofiles =
       \<lparr>main_raised = None, appender_raised = Some ValueError, layout = gs,
        disk = [LAYOUT_FILE \<mapsto> yaml_head 3 0 @ concat (map (render_group ''  '' ''/w'') gs)]\<rparr>"
      and len: "length gs = nat 3"
    using t0 by auto
  have r0: "main_raised ?nofiles = None" "appender_raised ?nofiles = Some ValueError"
    "length (layout ?nofiles) = 3"
    unfolding gs using len by simp_all
  have "NUM_GROUPS_neg": "(- 2 :: int) < 0 \<and> (1 :: int) \<le> 10 \<and>
      (\<forall>a \<in> set [sample_append]. 0 \<le> n_sleep a \<and> n_sleep a \<le> 1)"
    using d by simp
  have ne: "[sample_append] \<noteq> []" by simp
  have r: "main_raised ?run = None" "appender_raised ?run = None" "layout ?run = []"
    "disk ?run (test_log_path (randint 1 10 (k_file_num (n_picks (hd [sample_append]) 0)))) \<noteq> None"
    using t NUM_GROUPS_neg ne by blast+
  show ?thesis using h g r0 d r(1-3) r(4)[unfolded n] by simp
qed

text \<open>
  C9 as stated fails: \<open>--files -1\<close> is accepted and yields an empty session; the
  layout script run with 10 files in \<open>-2\<close> groups raises nothing in either thread and
  its appender creates \<open>test_5.log\<close>; run with no files in 3 groups, its main thread
  raises nothing and writes the layout.
\<close>

theorem zero_files_accepted_counterexample:
  "main_setup ((sample_args None None)\<lparr>a_files := - 1\<rparr>) sample_clock sample_float_str Map.empty =
     Inr (Map.empty, []) \<and>
   main_raised (tail_tree_script 10 (- 2) False ''/w'' sample_stamp [sample_append] Map.empty) = None \<and>
   appender_raised (tail_tree_script 10 (- 2) False ''/w'' sample_stamp [sample_append] Map.empty) =
     None \<and>
   Map.empty (test_log_path 5) = (None :: string option) \<and>
   disk (tail_tree_script 10 (- 2) False ''/w'' sample_stamp [sample_append] Map.empty)
     (test_log_path 5) \<noteq> None \<and>
   main_raised (tail_tree_script 0 3 False ''/w'' sample_stamp [sample_append] Map.empty) = None \<and>
   disk (tail_tree_script 0 3 False ''/w'' sample_stamp [sample_append] Map.empty) LAYOUT_FILE \<noteq> None"
proof -
  let ?nofiles = "tail_tree_script 0 3 False ''/w'' sample_stamp [sample_append] Map.empty"
  let ?run = "tail_tree_script 10 (- 2) False ''/w'' sample_stamp [sample_append] Map.empty"
  have g: "main_setup ((sample_args None None)\<lparr>a_files := - 1\<rparr>) sample_clock sample_float_str
             Map.empty = Inr (Map.empty, [])"
    by (simp add: main_setup_def resolve_rate_def parse_args_def determine_rate_config_def
          rate_choices_def rate_presets_def sample_args_def)
  have d: "\<forall>a \<in> set [sample_append]. 0 \<le> n_sleep a \<and> n_sleep a \<le> 1"
    by (simp add: sample_append_def)
  have n: "randint 1 10 (k_file_num (n_picks (hd [sample_append]) 0)) = 5"
    by (simp add: randint_def sample_append_def)
  have neg: "(- 2 :: int) < 0" and pos: "(1 :: int) \<le> 10" by simp_all
  note s = script_negative_groups[OF neg pos d, of False "''/w''" sample_stamp Map.empty]
  have r: "main_raised ?run = None" "appender_raised ?run = None"
    "disk ?run (test_log_path (randint 1 10 (k_file_num (n_picks (hd [sample_append]) 0)))) \<noteq> None"
    using s by simp_all
  have nz: "(3 :: int) \<noteq> 0" and none: "(0 :: int) \<le> 0" by simp_all
  obtain gs where gs: "?nofiles =
       \<lparr>main_raised = None, appender_raised = (if [sample_append] = [] then None else Some ValueError),
        layout = gs,
        disk = [LAYOUT_FILE \<mapsto> yaml_head 3 0 @ concat (map (render_group ''  '' ''/w'') gs)]\<rparr>"
    using script_no_files[OF nz none, of False "''/w''" sample_stamp "[sample_append]" Map.empty]
    by blast
  have r0: "main_raised ?nofiles = None" "disk ?nofiles LAYOUT_FILE \<noteq> None"
    unfolding gs by simp_all
  show ?thesis using g r(1,2) r(3)[unfolded n] r0 by simp
qed

end
